theory Spec2Isabelle
  imports Main
begin

section \<open>Store: the path of an object in the cache\<close>

text \<open>
  \<^verbatim>\<open>Util::get_path_in_cache\<close> (src/src/Util.cpp). A \<^verbatim>\<open>string_view\<close> is a
  \<^typ>\<open>string\<close>, a list of bytes. \<^verbatim>\<open>levels\<close> is a \<^verbatim>\<open>uint32_t\<close>; the only arithmetic
  on it is the counter \<^verbatim>\<open>level\<close>, which stays below \<^verbatim>\<open>levels\<close>, so it is a
  natural number here. Each failed \<^verbatim>\<open>assert\<close> is the result \<open>None\<close>.
\<close>

text \<open>
  The loop
  \<^verbatim>\<open>for (; level < levels; ++level) { path.push_back('/'); path.push_back(name.at(level)); }\<close>
  returning the counter and the path. \<^verbatim>\<open>name.at\<close> throws when the index is out of
  range: that is \<open>None\<close> as well.
\<close>

function get_path_in_cache_loop :: "string \<Rightarrow> nat \<Rightarrow> nat \<Rightarrow> string \<Rightarrow> (nat \<times> string) option" where
  "get_path_in_cache_loop name levels level path =
     (if level < levels then
        (if level < length name
         then get_path_in_cache_loop name levels (level + 1) ((path @ [CHR ''/'']) @ [name ! level])
         else None)
      else Some (level, path))"
  by pat_completeness auto
termination
  by (relation "measure (\<lambda>(name, levels, level, path). levels - level)") auto

definition get_path_in_cache :: "string \<Rightarrow> nat \<Rightarrow> string \<Rightarrow> string \<Rightarrow> string option" where
  "get_path_in_cache cache_dir levels name suffix =
     (if \<not> (levels \<ge> 1 \<and> levels \<le> 8) then None
      else if \<not> (levels < length name) then None
      else
        (case get_path_in_cache_loop name levels 0 cache_dir of
           None \<Rightarrow> None
         | Some (level, path) \<Rightarrow>
             (let path = path @ [CHR ''/''];
                  name_remaining = drop level name;
                  path = path @ name_remaining;
                  path = path @ suffix
              in Some path)))"

text \<open>The fan-out directories the specification writes as \<open>("/" ++ name[i])\<close> for \<open>i\<close> below \<open>levels\<close>.\<close>

definition level_dirs :: "string \<Rightarrow> nat \<Rightarrow> string" where
  "level_dirs name levels = concat (map (\<lambda>i. [CHR ''/'', name ! i]) [0..<levels])"

section \<open>OutputSanitizer: stripping ANSI CSI sequences\<close>

text \<open>
  \<^verbatim>\<open>find_first_ansi_csi_seq\<close> has three loops of one shape,
  \<^verbatim>\<open>while (pos < string.length() && P(string[pos])) { ++pos; }\<close>,
  with \<open>P\<close> the test \<^verbatim>\<open>!= 0x1b\<close>, the range \<^verbatim>\<open>0x30..0x3f\<close> and the range
  \<^verbatim>\<open>0x20..0x2f\<close>. \<open>scan_while\<close> is that loop. A \<^verbatim>\<open>char\<close> is a byte; the ranges
  lie below \<^verbatim>\<open>0x80\<close>, so the tests do not depend on the signedness of \<^verbatim>\<open>char\<close>.
\<close>

function scan_while :: "(char \<Rightarrow> bool) \<Rightarrow> string \<Rightarrow> nat \<Rightarrow> nat" where
  "scan_while P s pos = (if pos < length s \<and> P (s ! pos) then scan_while P s (pos + 1) else pos)"
  by pat_completeness auto
termination
  by (relation "measure (\<lambda>(P, s, pos). length s - pos)") auto

declare scan_while.simps [simp del]

definition is_parameter_byte :: "char \<Rightarrow> bool" where
  "is_parameter_byte c \<longleftrightarrow> (of_char c :: nat) \<ge> 0x30 \<and> (of_char c :: nat) \<le> 0x3f"

definition is_intermediate_byte :: "char \<Rightarrow> bool" where
  "is_intermediate_byte c \<longleftrightarrow> (of_char c :: nat) \<ge> 0x20 \<and> (of_char c :: nat) \<le> 0x2f"

text \<open>
  The result is a \<^verbatim>\<open>string_view\<close> into the argument: here the pair of its offset in
  the argument and its length. The empty view \<^verbatim>\<open>{}\<close> is \<open>(0, 0)\<close>; the caller only
  tests it with \<^verbatim>\<open>empty()\<close>, that is, length \<open>0\<close>.
\<close>

definition find_first_ansi_csi_seq :: "string \<Rightarrow> nat \<times> nat" where
  "find_first_ansi_csi_seq s =
     (let pos = scan_while (\<lambda>c. c \<noteq> CHR 0x1B) s 0 in
      if pos + 1 \<ge> length s \<or> s ! (pos + 1) \<noteq> CHR ''['' then (0, 0)
      else
        (let start = pos;
             pos = pos + 2;
             pos = scan_while is_parameter_byte s pos;
             pos = scan_while is_intermediate_byte s pos
         in if pos < length s \<and> (s ! pos = CHR ''K'' \<or> s ! pos = CHR ''m'')
            then (start, pos + 1 - start)
            else (0, 0)))"

text \<open>
  The \<^verbatim>\<open>while (true)\<close> loop of \<^verbatim>\<open>Util::strip_ansi_csi_seqs\<close>, on the state
  \<^verbatim>\<open>pos\<close>, \<^verbatim>\<open>result\<close>. \<^verbatim>\<open>string.substr(pos)\<close> is \<open>drop pos s\<close>, and
  \<^verbatim>\<open>seq_span.data() - data_start\<close> is the offset of the view.
\<close>

function strip_ansi_csi_seqs_loop :: "string \<Rightarrow> nat \<Rightarrow> string \<Rightarrow> string" where
  "strip_ansi_csi_seqs_loop s pos result =
     (let seq_span = find_first_ansi_csi_seq (drop pos s);
          data_length = (if snd seq_span = 0 then length s - pos else fst seq_span);
          result = result @ take data_length (drop pos s)
      in if snd seq_span = 0 then result
         else strip_ansi_csi_seqs_loop s (pos + data_length + snd seq_span) result)"
  by pat_completeness auto
termination
proof (relation "measure (\<lambda>(s, pos, result). length s - pos)")
  show "wf (measure (\<lambda>(s, pos, result). length s - pos))" by simp
next
  fix s :: string and pos :: nat and result :: string and x xa xb
  assume a: "x = find_first_ansi_csi_seq (drop pos s)"
    "xa = (if snd x = 0 then length s - pos else fst x)" "snd x \<noteq> 0"
  have le: "scan_while P t p \<le> max p (length t)" for P t p
    by (induction P t p rule: scan_while.induct) (subst scan_while.simps, auto)
  have ge: "p \<le> scan_while P t p" for P t p
    by (induction P t p rule: scan_while.induct) (subst scan_while.simps, auto)
  show "((s, pos + xa + snd x, xb), s, pos, result) \<in> measure (\<lambda>(s, pos, result). length s - pos)"
    using a le [of "(\<lambda>c. c \<noteq> CHR 0x1B)" "drop pos s" 0] ge[of "Suc (Suc (scan_while (\<lambda>c. c \<noteq> CHR 0x1B) (drop pos s) 0))" is_parameter_byte "drop pos s"]
      ge [of "scan_while is_parameter_byte (drop pos s) (Suc (Suc (scan_while (\<lambda>c. c \<noteq> CHR 0x1B) (drop pos s) 0)))" is_intermediate_byte "drop pos s"]
    by (auto simp: find_first_ansi_csi_seq_def Let_def split: if_splits)
qed

declare strip_ansi_csi_seqs_loop.simps [simp del]

definition strip_ansi_csi_seqs :: "string \<Rightarrow> string" where
  "strip_ansi_csi_seqs s = strip_ansi_csi_seqs_loop s 0 []"

text \<open>
  The grammar of the specification, \<open>ESC [ 0x30-0x3f* 0x20-0x2f* (K|m)\<close>, stated on its
  own: \<open>csi_seq q\<close> says that the whole of \<open>q\<close> is one sequence, \<open>begins_csi_seq t\<close> that
  \<open>t\<close> starts with one.
\<close>

definition csi_seq :: "string \<Rightarrow> bool" where
  "csi_seq q \<longleftrightarrow>
     (\<exists>ps is f. q = CHR 0x1B # CHR ''['' # ps @ is @ [f]
        \<and> (\<forall>c \<in> set ps. is_parameter_byte c)
        \<and> (\<forall>c \<in> set is. is_intermediate_byte c)
        \<and> (f = CHR ''K'' \<or> f = CHR ''m''))"

definition begins_csi_seq :: "string \<Rightarrow> bool" where
  "begins_csi_seq t \<longleftrightarrow> (\<exists>q rst. t = q @ rst \<and> csi_seq q)"


section \<open>PathOps: textual paths\<close>

text \<open>
  The POSIX build is modelled: the \<^verbatim>\<open>#ifdef _WIN32\<close> branches are left out. The members of
  \<^verbatim>\<open>std::string\<close> and \<^verbatim>\<open>string_view\<close> that the functions use are modelled from the C++
  standard: \<^verbatim>\<open>find\<close>, \<^verbatim>\<open>rfind\<close>, \<^verbatim>\<open>find_last_of\<close> and \<^verbatim>\<open>find_last_not_of\<close> return a
  position or \<^verbatim>\<open>npos\<close>, here \<open>None\<close>. The code only uses \<^verbatim>\<open>npos\<close> in the sum
  \<^verbatim>\<open>npos + 1\<close>, which wraps around to \<open>0\<close> in \<^verbatim>\<open>size_t\<close>: that sum is \<open>npos_plus_1\<close>,
  so that \<^verbatim>\<open>s.erase(s.rfind(c, p) + 1)\<close> is \<open>take (npos_plus_1 (rfind_from s c p)) s\<close>.
\<close>

definition npos_plus_1 :: "nat option \<Rightarrow> nat" where
  "npos_plus_1 r = (case r of None \<Rightarrow> 0 | Some n \<Rightarrow> n + 1)"

definition find_from :: "string \<Rightarrow> char \<Rightarrow> nat \<Rightarrow> nat option" where
  "find_from s c pos =
     (let k = length (takeWhile (\<lambda>x. x \<noteq> c) (drop pos s))
      in if pos + k < length s then Some (pos + k) else None)"

definition rfind_from :: "string \<Rightarrow> char \<Rightarrow> nat \<Rightarrow> nat option" where
  "rfind_from s c pos =
     (let t = take (pos + 1) s;
          k = length (dropWhile (\<lambda>x. x \<noteq> c) (rev t))
      in if k = 0 then None else Some (k - 1))"

definition find_last_of :: "string \<Rightarrow> char \<Rightarrow> nat option" where
  "find_last_of s c =
     (let k = length (dropWhile (\<lambda>x. x \<noteq> c) (rev s))
      in if k = 0 then None else Some (k - 1))"

definition find_last_not_of :: "string \<Rightarrow> char \<Rightarrow> nat option" where
  "find_last_not_of s c =
     (let k = length (dropWhile (\<lambda>x. x = c) (rev s))
      in if k = 0 then None else Some (k - 1))"

text \<open>\<^verbatim>\<open>Util::is_absolute_path\<close>, \<^verbatim>\<open>Util::base_name\<close> and \<^verbatim>\<open>Util::dir_name\<close>.\<close>

definition is_absolute_path :: "string \<Rightarrow> bool" where
  "is_absolute_path path \<longleftrightarrow> path \<noteq> [] \<and> path ! 0 = CHR ''/''"

definition base_name :: "string \<Rightarrow> string" where
  "base_name path =
     (case find_last_of path (CHR ''/'') of None \<Rightarrow> path | Some n \<Rightarrow> drop (n + 1) path)"

definition dir_name :: "string \<Rightarrow> string" where
  "dir_name path =
     (case find_last_of path (CHR ''/'') of
        None \<Rightarrow> ''.''
      | Some n \<Rightarrow> if n = 0 then ''/'' else take n path)"

text \<open>
  \<^verbatim>\<open>Util::common_dir_prefix_length\<close>. Its first loop,
  \<^verbatim>\<open>while (i < limit && dir[i] == path[i]) { ++i; }\<close>, and its second,
  \<^verbatim>\<open>do { --i; } while (i > 0 && dir[i] != '/' && path[i] != '/');\<close>.
  The two \<^verbatim>\<open>assert\<close>s make the first characters equal, so the first loop leaves
  \<open>i \<ge> 1\<close> and \<^verbatim>\<open>--i\<close> does not wrap; a failed \<^verbatim>\<open>assert\<close> is \<open>None\<close>.
\<close>

function common_prefix_loop :: "string \<Rightarrow> string \<Rightarrow> nat \<Rightarrow> nat \<Rightarrow> nat" where
  "common_prefix_loop dir path limit i =
     (if i < limit \<and> dir ! i = path ! i then common_prefix_loop dir path limit (i + 1) else i)"
  by pat_completeness auto
termination
  by (relation "measure (\<lambda>(dir, path, limit, i). limit - i)") auto

declare common_prefix_loop.simps [simp del]

function back_to_slash_loop :: "string \<Rightarrow> string \<Rightarrow> nat \<Rightarrow> nat" where
  "back_to_slash_loop dir path i =
     (if i - 1 > 0 \<and> dir ! (i - 1) \<noteq> CHR ''/'' \<and> path ! (i - 1) \<noteq> CHR ''/''
      then back_to_slash_loop dir path (i - 1) else i - 1)"
  by pat_completeness auto
termination
  by (relation "measure (\<lambda>(dir, path, i). i)") auto

declare back_to_slash_loop.simps [simp del]

definition common_dir_prefix_length :: "string \<Rightarrow> string \<Rightarrow> nat option" where
  "common_dir_prefix_length dir path =
     (if dir = [] \<or> path = [] \<or> dir = ''/'' \<or> path = ''/'' then Some 0
      else if \<not> (dir ! 0 = CHR ''/'') then None
      else if \<not> (path ! 0 = CHR ''/'') then None
      else
        (let limit = min (length dir) (length path);
             i = common_prefix_loop dir path limit 0
         in if (i = length dir \<and> i = length path)
               \<or> (i = length dir \<and> path ! i = CHR ''/'')
               \<or> (i = length path \<and> dir ! i = CHR ''/'')
            then Some i
            else Some (back_to_slash_loop dir path i)))"

text \<open>
  \<^verbatim>\<open>Util::normalize_absolute_path\<close>. \<open>normalize_step\<close> is the body of its loop for one
  \<^verbatim>\<open>part\<close> (the three branches on \<^verbatim>\<open>".."\<close>, \<^verbatim>\<open>"."\<close> and any other part),
  \<open>normalize_loop\<close> the \<^verbatim>\<open>while (true)\<close> loop on \<^verbatim>\<open>left\<close> and \<^verbatim>\<open>result\<close>.
\<close>

definition normalize_step :: "string \<Rightarrow> string \<Rightarrow> string" where
  "normalize_step part result =
     (if part = ''..'' then
        (if length result > 1
         then take (npos_plus_1 (rfind_from result (CHR ''/'') (length result - 2))) result
         else result)
      else if part = ''.'' then result
      else
        (let result = result @ part
         in if result ! (length result - 1) \<noteq> CHR ''/'' then result @ ''/'' else result))"

function normalize_loop :: "string \<Rightarrow> nat \<Rightarrow> string \<Rightarrow> string" where
  "normalize_loop path left result =
     (if left \<ge> length path then result
      else
        (let right = find_from path (CHR ''/'') left;
             part = (case right of None \<Rightarrow> drop left path
                     | Some r \<Rightarrow> take (r - left) (drop left path));
             result = normalize_step part result
         in case right of None \<Rightarrow> result
            | Some r \<Rightarrow> normalize_loop path (r + 1) result))"
  by pat_completeness auto
termination
  by (relation "measure (\<lambda>(path, left, result). length path - left)")
     (auto simp: find_from_def Let_def split: if_splits)

declare normalize_loop.simps [simp del]

definition normalize_absolute_path :: "string \<Rightarrow> string" where
  "normalize_absolute_path path =
     (if \<not> is_absolute_path path then path
      else
        (let result = normalize_loop path 1 ''/''
         in if length result > 1
            then take (npos_plus_1 (find_last_not_of result (CHR ''/''))) result
            else result))"

text \<open>
  \<^verbatim>\<open>Util::get_relative_path\<close>. \<open>dotdot_loop\<close> is the loop
  \<^verbatim>\<open>for (size_t i = common_prefix_len; i < dir.length(); ++i)\<close> that appends one
  \<^verbatim>\<open>".."\<close> for every \<^verbatim>\<open>'/'\<close> of \<^verbatim>\<open>dir\<close> from the common prefix on.
\<close>

function dotdot_loop :: "string \<Rightarrow> nat \<Rightarrow> string \<Rightarrow> string" where
  "dotdot_loop dir i result =
     (if i < length dir then
        dotdot_loop dir (i + 1)
          (if dir ! i = CHR ''/''
           then (if result \<noteq> [] then result @ ''/'' else result) @ ''..''
           else result)
      else result)"
  by pat_completeness auto
termination
  by (relation "measure (\<lambda>(dir, i, result). length dir - i)") auto

declare dotdot_loop.simps [simp del]

definition get_relative_path :: "string \<Rightarrow> string \<Rightarrow> string option" where
  "get_relative_path dir path =
     (if \<not> is_absolute_path dir then None
      else if \<not> is_absolute_path path then None
      else
        (case common_dir_prefix_length dir path of
           None \<Rightarrow> None
         | Some common_prefix_len \<Rightarrow>
             (let result = [];
                  result = (if common_prefix_len > 0 \<or> dir \<noteq> ''/''
                            then dotdot_loop dir common_prefix_len result else result);
                  result = (if length path > common_prefix_len
                            then (if result \<noteq> [] then result @ ''/'' else result)
                                 @ drop (common_prefix_len + 1) path
                            else result);
                  result = take (npos_plus_1 (find_last_not_of result (CHR ''/''))) result
              in Some (if result = [] then ''.'' else result))))"

text \<open>
  The terms of the claims. \<open>dir_boundary dir path k\<close>: the first \<open>k\<close> characters of the two
  paths agree, and in each path they end at the end of the string or just before a \<open>"/"\<close>.
  \<open>slash_ended\<close> is the shape \<^verbatim>\<open>result\<close> keeps in the loop of
  \<^verbatim>\<open>normalize_absolute_path\<close>, and \<open>plain_name\<close> a path component that is a name.
\<close>

definition dir_boundary :: "string \<Rightarrow> string \<Rightarrow> nat \<Rightarrow> bool" where
  "dir_boundary dir path k \<longleftrightarrow>
     k \<le> length dir \<and> k \<le> length path \<and> take k dir = take k path
     \<and> (k = length dir \<or> dir ! k = CHR ''/'')
     \<and> (k = length path \<or> path ! k = CHR ''/'')"

definition slash_ended :: "string \<Rightarrow> bool" where
  "slash_ended st \<longleftrightarrow> st \<noteq> [] \<and> hd st = CHR ''/'' \<and> last st = CHR ''/''"

definition plain_name :: "string \<Rightarrow> bool" where
  "plain_name c \<longleftrightarrow> c \<noteq> [] \<and> CHR ''/'' \<notin> set c \<and> c \<noteq> ''.'' \<and> c \<noteq> ''..''"

section \<open>FsPrimitives and Materializer: the operating system as an oracle\<close>

text \<open>
  The functions below call the operating system. Each call is an oracle: a function of
  the arguments, the current \<^verbatim>\<open>errno\<close> and a state of the world \<open>'w\<close>, returning the
  result, the new \<^verbatim>\<open>errno\<close> and the new world. Nothing is assumed about the oracles, so
  the world may change between two calls as other processes run. A process state
  \<open>'w proc\<close> holds \<^verbatim>\<open>errno\<close>, the world and the trace of the calls made so far
  with their results; \<^verbatim>\<open>cc_log\<close> lines are events of the trace as well.
\<close>

text \<open>
  Modelled from the spec: the class \<^verbatim>\<open>Stat\<close> is not among the source files. Of the
  StatSnapshot of the specification the code here reads \<^verbatim>\<open>operator bool\<close> (the call
  succeeded, the file exists), here \<open>st_ok\<close>, and \<^verbatim>\<open>is_directory()\<close>.
\<close>

record stat_snapshot =
  st_ok :: bool
  st_is_directory :: bool

datatype event =
    Ev_stat string stat_snapshot
  | Ev_mkdir string nat int
  | Ev_clone_file string string bool bool
  | Ev_unlink string int
  | Ev_link string string int
  | Ev_chmod string nat int
  | Ev_copy_file string string bool bool
  | Ev_cc_log string

record 'w proc =
  errno :: int
  world :: 'w
  trace :: "event list"

record 'w os =
  os_stat :: "string \<Rightarrow> int \<Rightarrow> 'w \<Rightarrow> stat_snapshot \<times> int \<times> 'w"
  os_mkdir :: "string \<Rightarrow> nat \<Rightarrow> int \<Rightarrow> 'w \<Rightarrow> int \<times> int \<times> 'w"
  os_clone_file :: "string \<Rightarrow> string \<Rightarrow> bool \<Rightarrow> int \<Rightarrow> 'w \<Rightarrow> bool \<times> int \<times> 'w"
  os_unlink :: "string \<Rightarrow> int \<Rightarrow> 'w \<Rightarrow> int \<times> int \<times> 'w"
  os_link :: "string \<Rightarrow> string \<Rightarrow> int \<Rightarrow> 'w \<Rightarrow> int \<times> int \<times> 'w"
  os_chmod :: "string \<Rightarrow> nat \<Rightarrow> int \<Rightarrow> 'w \<Rightarrow> int \<times> int \<times> 'w"
  os_copy_file :: "string \<Rightarrow> string \<Rightarrow> bool \<Rightarrow> int \<Rightarrow> 'w \<Rightarrow> bool \<times> int \<times> 'w"

definition invoke :: "(int \<Rightarrow> 'w \<Rightarrow> 'a \<times> int \<times> 'w) \<Rightarrow> ('a \<Rightarrow> event) \<Rightarrow> 'w proc \<Rightarrow> 'a \<times> 'w proc" where
  "invoke f ev s =
     (case f (errno s) (world s) of
        (r, e, w) \<Rightarrow> (r, \<lparr>errno = e, world = w, trace = trace s @ [ev r]\<rparr>))"

definition sys_stat :: "'w os \<Rightarrow> string \<Rightarrow> 'w proc \<Rightarrow> stat_snapshot \<times> 'w proc" where
  "sys_stat os path = invoke (os_stat os path) (Ev_stat path)"

definition sys_mkdir :: "'w os \<Rightarrow> string \<Rightarrow> nat \<Rightarrow> 'w proc \<Rightarrow> int \<times> 'w proc" where
  "sys_mkdir os path mode = invoke (os_mkdir os path mode) (Ev_mkdir path mode)"

definition sys_clone_file :: "'w os \<Rightarrow> string \<Rightarrow> string \<Rightarrow> bool \<Rightarrow> 'w proc \<Rightarrow> bool \<times> 'w proc" where
  "sys_clone_file os src dest via_tmp_file =
     invoke (os_clone_file os src dest via_tmp_file) (Ev_clone_file src dest via_tmp_file)"

definition sys_unlink :: "'w os \<Rightarrow> string \<Rightarrow> 'w proc \<Rightarrow> int \<times> 'w proc" where
  "sys_unlink os path = invoke (os_unlink os path) (Ev_unlink path)"

definition sys_link :: "'w os \<Rightarrow> string \<Rightarrow> string \<Rightarrow> 'w proc \<Rightarrow> int \<times> 'w proc" where
  "sys_link os src dest = invoke (os_link os src dest) (Ev_link src dest)"

definition sys_chmod :: "'w os \<Rightarrow> string \<Rightarrow> nat \<Rightarrow> 'w proc \<Rightarrow> int \<times> 'w proc" where
  "sys_chmod os path mode = invoke (os_chmod os path mode) (Ev_chmod path mode)"

definition sys_copy_file :: "'w os \<Rightarrow> string \<Rightarrow> string \<Rightarrow> bool \<Rightarrow> 'w proc \<Rightarrow> bool \<times> 'w proc" where
  "sys_copy_file os src dest via_tmp_file =
     invoke (os_copy_file os src dest via_tmp_file) (Ev_copy_file src dest via_tmp_file)"

definition cc_log :: "string \<Rightarrow> 'w proc \<Rightarrow> 'w proc" where
  "cc_log format s = s\<lparr>trace := trace s @ [Ev_cc_log format]\<rparr>"

text \<open>
  The constants of \<^verbatim>\<open><errno.h>\<close> with their Linux values, and the octal modes of the
  source.
\<close>

definition ENOTDIR :: int where "ENOTDIR = 20"
definition EEXIST :: int where "EEXIST = 17"
definition mode_0777 :: nat where "mode_0777 = 7 * 64 + 7 * 8 + 7"
definition mode_0444 :: nat where "mode_0444 = 4 * 64 + 4 * 8 + 4"

text \<open>
  \<^verbatim>\<open>Util::create_dir\<close>. The recursion on \<^verbatim>\<open>Util::dir_name(dir)\<close> need not end (when
  no \<^verbatim>\<open>stat\<close> on the way up succeeds, \<open>"/"\<close> and \<open>"."\<close> are their own parents): the
  result is an option, and \<open>None\<close> is a call that does not return.
\<close>

partial_function (option) create_dir :: "'w os \<Rightarrow> string \<Rightarrow> 'w proc \<Rightarrow> (bool \<times> 'w proc) option" where
  "create_dir os dir s =
     (case sys_stat os dir s of
        (st, s1) \<Rightarrow>
          if st_ok st then
            (if st_is_directory st then Some (True, s1)
             else Some (False, s1\<lparr>errno := ENOTDIR\<rparr>))
          else
            Option.bind (create_dir os (dir_name dir) s1)
              (\<lambda>(ok, s2).
                 if \<not> ok then Some (False, s2)
                 else
                   (case sys_mkdir os dir mode_0777 s2 of
                      (result, s3) \<Rightarrow> Some (result = 0 \<or> errno s3 = EEXIST, s3))))"

text \<open>
  The walk from \<open>dir\<close> up through its parents (\<open>dir_name\<close>), at most \<open>n\<close> steps, to the
  first path for which \<^verbatim>\<open>stat\<close> succeeds: the snapshot of that path and the state after
  the calls. In a file system, when \<open>dir\<close> or one of its ancestors exists and is not a
  directory, nothing below it exists, so it is where this walk ends.
\<close>

fun first_existing :: "'w os \<Rightarrow> nat \<Rightarrow> string \<Rightarrow> 'w proc \<Rightarrow> (stat_snapshot \<times> 'w proc) option" where
  "first_existing os 0 dir s =
     (case sys_stat os dir s of (st, s1) \<Rightarrow> if st_ok st then Some (st, s1) else None)"
| "first_existing os (Suc n) dir s =
     (case sys_stat os dir s of
        (st, s1) \<Rightarrow> if st_ok st then Some (st, s1) else first_existing os n (dir_name dir) s1)"

text \<open>
  \<^verbatim>\<open>Util::clone_hard_link_or_copy_file\<close>. \<open>config\<close> holds the two settings
  it reads from \<^verbatim>\<open>ctx.config\<close>. \<^verbatim>\<open>clone_file\<close> and \<^verbatim>\<open>copy_file\<close> (of
  \<^verbatim>\<open>legacy_util\<close>) are oracles like the system calls. The function is cut at its two
  fall-through points: \<open>hard_link_step\<close> is the code from \<^verbatim>\<open>if (ctx.config.hard_link())\<close>
  on, \<open>copy_step\<close> the last two statements.
\<close>

record config =
  file_clone :: bool
  hard_link :: bool

definition copy_step :: "'w os \<Rightarrow> string \<Rightarrow> string \<Rightarrow> bool \<Rightarrow> 'w proc \<Rightarrow> bool \<times> 'w proc" where
  "copy_step os source dest via_tmp_file s =
     (let s = cc_log ''Copying %s to %s'' s
      in sys_copy_file os source dest via_tmp_file s)"

definition hard_link_step ::
  "'w os \<Rightarrow> config \<Rightarrow> string \<Rightarrow> string \<Rightarrow> bool \<Rightarrow> 'w proc \<Rightarrow> bool \<times> 'w proc" where
  "hard_link_step os cfg source dest via_tmp_file s =
     (if hard_link cfg then
        (case sys_unlink os dest s of
           (u, s) \<Rightarrow>
             (let s = cc_log ''Hard linking %s to %s'' s
              in case sys_link os source dest s of
                   (ret, s) \<Rightarrow>
                     if ret = 0 then
                       (case sys_chmod os dest mode_0444 s of
                          (c, s) \<Rightarrow>
                            (let s = (if c \<noteq> 0 then cc_log ''Failed to chmod: %s'' s else s)
                             in (True, s)))
                     else
                       copy_step os source dest via_tmp_file (cc_log ''Failed to hard link: %s'' s)))
      else copy_step os source dest via_tmp_file s)"

definition clone_hard_link_or_copy_file ::
  "'w os \<Rightarrow> config \<Rightarrow> string \<Rightarrow> string \<Rightarrow> bool \<Rightarrow> 'w proc \<Rightarrow> bool \<times> 'w proc" where
  "clone_hard_link_or_copy_file os cfg source dest via_tmp_file s =
     (if file_clone cfg then
        (let s = cc_log ''Cloning %s to %s'' s
         in case sys_clone_file os source dest via_tmp_file s of
              (ok, s) \<Rightarrow>
                if ok then (True, s)
                else hard_link_step os cfg source dest via_tmp_file (cc_log ''Failed to clone: %s'' s))
      else hard_link_step os cfg source dest via_tmp_file s)"

text \<open>
  The events a call added to the trace.
\<close>

definition new_events :: "'w proc \<Rightarrow> 'w proc \<Rightarrow> event list" where
  "new_events s s' = drop (length (trace s)) (trace s')"

text \<open>
  Three concrete worlds, used in the examples. \<open>os_static\<close> is a file system that maps a path
  to whether it is a directory; \<open>os_race\<close> is the same where every \<^verbatim>\<open>mkdir\<close> finds that
  another process has just created the directory; \<open>os_readonly_owner\<close> maps a path to its
  mode, and its \<^verbatim>\<open>chmod\<close> fails.
\<close>

definition EPERM :: int where "EPERM = 1"
definition mode_0644 :: nat where "mode_0644 = 6 * 64 + 4 * 8 + 4"

definition os_readonly_owner :: "(string \<rightharpoonup> nat) os" where
  "os_readonly_owner =
     \<lparr>os_stat = (\<lambda>path e w. (\<lparr>st_ok = (w path \<noteq> None), st_is_directory = False\<rparr>, e, w)),
      os_mkdir = (\<lambda>path mode e w. (-1, EPERM, w)),
      os_clone_file = (\<lambda>src dest via e w. (False, EPERM, w)),
      os_unlink = (\<lambda>path e w. (0, e, w(path := None))),
      os_link = (\<lambda>src dest e w. (0, e, w(dest := w src))),
      os_chmod = (\<lambda>path mode e w. (-1, EPERM, w)),
      os_copy_file = (\<lambda>src dest via e w. (True, e, w(dest := w src)))\<rparr>"

definition os_static :: "(string \<rightharpoonup> bool) os" where
  "os_static =
     \<lparr>os_stat = (\<lambda>path e w.
         (case w path of
            None \<Rightarrow> (\<lparr>st_ok = False, st_is_directory = False\<rparr>, 2, w)
          | Some d \<Rightarrow> (\<lparr>st_ok = True, st_is_directory = d\<rparr>, e, w))),
      os_mkdir = (\<lambda>path mode e w.
         (case w path of
            None \<Rightarrow> (0, e, w(path \<mapsto> True))
          | Some d \<Rightarrow> (-1, EEXIST, w))),
      os_clone_file = (\<lambda>src dest via e w. (False, EPERM, w)),
      os_unlink = (\<lambda>path e w. (0, e, w(path := None))),
      os_link = (\<lambda>src dest e w. (0, e, w(dest := w src))),
      os_chmod = (\<lambda>path mode e w. (0, e, w)),
      os_copy_file = (\<lambda>src dest via e w. (True, e, w(dest := w src)))\<rparr>"

definition os_race :: "(string \<rightharpoonup> bool) os" where
  "os_race = os_static\<lparr>os_mkdir := (\<lambda>path mode e w. (-1, EEXIST, w(path \<mapsto> True)))\<rparr>"

text \<open>
  \<open>os_failing\<close> is a world with no state where every call fails: the clone with
  \<^verbatim>\<open>EOPNOTSUPP\<close>, \<^verbatim>\<open>unlink\<close> with \<^verbatim>\<open>ENOENT\<close>, \<^verbatim>\<open>link\<close> with \<^verbatim>\<open>EXDEV\<close> and the copy with
  \<^verbatim>\<open>ENOSPC\<close>.
\<close>

definition os_failing :: "unit os" where
  "os_failing =
     \<lparr>os_stat = (\<lambda>path e w. (\<lparr>st_ok = False, st_is_directory = False\<rparr>, 2, w)),
      os_mkdir = (\<lambda>path mode e w. (-1, EPERM, w)),
      os_clone_file = (\<lambda>src dest via e w. (False, 95, w)),
      os_unlink = (\<lambda>path e w. (-1, 2, w)),
      os_link = (\<lambda>src dest e w. (-1, 18, w)),
      os_chmod = (\<lambda>path mode e w. (-1, EPERM, w)),
      os_copy_file = (\<lambda>src dest via e w. (False, 28, w))\<rparr>"

text \<open>
  Where \<^verbatim>\<open>clone_hard_link_or_copy_file\<close> stands when it has not returned from its first
  \<^verbatim>\<open>if\<close>: with cloning disabled nothing has happened; with cloning enabled the operating
  system has answered false to the clone, leaving \<open>errno\<close> \<open>e0\<close> and the world \<open>w0\<close>, and the
  events \<open>pre\<close> have been recorded.
\<close>

definition clone_not_done ::
  "'w os \<Rightarrow> config \<Rightarrow> string \<Rightarrow> string \<Rightarrow> bool \<Rightarrow> 'w proc \<Rightarrow> int \<Rightarrow> 'w \<Rightarrow> event list \<Rightarrow> bool" where
  "clone_not_done os cfg source dest via_tmp_file s e0 w0 pre \<longleftrightarrow>
     (if file_clone cfg
      then os_clone_file os source dest via_tmp_file (errno s) (world s) = (False, e0, w0)
           \<and> pre = [Ev_cc_log ''Cloning %s to %s'', Ev_clone_file source dest via_tmp_file False,
                     Ev_cc_log ''Failed to clone: %s'']
      else e0 = errno s \<and> w0 = world s \<and> pre = [])"

text \<open>
  \<^verbatim>\<open>Util::fallocate\<close>. An open file is its size, its position and whether it can seek;
  \<^verbatim>\<open>lseek\<close> and \<^verbatim>\<open>posix_fallocate\<close> follow POSIX. \<open>fallocate_env\<close> says which branch of
  the \<^verbatim>\<open>#ifdef HAVE_POSIX_FALLOCATE\<close> is compiled and which of the calls fail.
\<close>

datatype whence = SEEK_SET | SEEK_CUR | SEEK_END

record open_file =
  f_size :: int
  f_pos :: int
  f_seekable :: bool

record fallocate_env =
  have_posix_fallocate :: bool
  posix_fallocate_error :: "int option"
  calloc_fails :: bool
  write_fd_error :: "int option"

definition ENOMEM :: int where "ENOMEM = 12"
definition EINVAL :: int where "EINVAL = 22"
definition ESPIPE :: int where "ESPIPE = 29"

definition lseek :: "int \<Rightarrow> whence \<Rightarrow> open_file proc \<Rightarrow> int \<times> open_file proc" where
  "lseek offset wh s =
     (let f = world s in
      if \<not> f_seekable f then (-1, s\<lparr>errno := ESPIPE\<rparr>)
      else
        (let new = (case wh of SEEK_SET \<Rightarrow> offset
                    | SEEK_CUR \<Rightarrow> f_pos f + offset
                    | SEEK_END \<Rightarrow> f_size f + offset)
         in if new < 0 then (-1, s\<lparr>errno := EINVAL\<rparr>)
            else (new, s\<lparr>world := f\<lparr>f_pos := new\<rparr>\<rparr>)))"

text \<open>
  Modelled from the spec: \<^verbatim>\<open>write_fd\<close> (of \<^verbatim>\<open>legacy_util\<close>) is not among the source
  files. It writes the whole buffer at the position of the file, or fails with an
  \<^verbatim>\<open>errno\<close>.
\<close>

definition write_fd :: "fallocate_env \<Rightarrow> int \<Rightarrow> open_file proc \<Rightarrow> bool \<times> open_file proc" where
  "write_fd env n s =
     (case write_fd_error env of
        Some e \<Rightarrow> (False, s\<lparr>errno := e\<rparr>)
      | None \<Rightarrow>
          (let f = world s
           in (True, s\<lparr>world := f\<lparr>f_size := max (f_size f) (f_pos f + n), f_pos := f_pos f + n\<rparr>\<rparr>)))"

definition posix_fallocate :: "fallocate_env \<Rightarrow> int \<Rightarrow> int \<Rightarrow> open_file proc \<Rightarrow> int \<times> open_file proc" where
  "posix_fallocate env offset len s =
     (if offset < 0 \<or> len \<le> 0 then (EINVAL, s)
      else
        (case posix_fallocate_error env of
           Some e \<Rightarrow> (e, s)
         | None \<Rightarrow>
             (let f = world s
              in (0, s\<lparr>world := f\<lparr>f_size := max (f_size f) (offset + len)\<rparr>\<rparr>))))"

definition fallocate :: "fallocate_env \<Rightarrow> int \<Rightarrow> open_file proc \<Rightarrow> int \<times> open_file proc" where
  "fallocate env new_size s =
     (if have_posix_fallocate env then posix_fallocate env 0 new_size s
      else
        (case lseek 0 SEEK_END s of
           (saved_pos, s) \<Rightarrow>
             (case lseek 0 SEEK_END s of
                (old_size, s) \<Rightarrow>
                  if old_size = -1 then
                    (let err = errno s
                     in case lseek saved_pos SEEK_SET s of (_, s) \<Rightarrow> (err, s))
                  else if old_size \<ge> new_size then
                    (case lseek saved_pos SEEK_SET s of (_, s) \<Rightarrow> (0, s))
                  else
                    (let bytes_to_write = new_size - old_size
                     in if calloc_fails env then
                          (case lseek saved_pos SEEK_SET s of (_, s) \<Rightarrow> (ENOMEM, s))
                        else
                          (case write_fd env bytes_to_write s of
                             (ok, s) \<Rightarrow>
                               (let err = (if \<not> ok then errno s else 0)
                                in case lseek saved_pos SEEK_SET s of (_, s) \<Rightarrow> (err, s)))))))"

section \<open>Theorems\<close>

subsection \<open>The cache path\<close>

lemma get_path_in_cache_loop_eq:
  "levels \<le> length name \<Longrightarrow> level \<le> levels \<Longrightarrow>
   get_path_in_cache_loop name levels level path =
     Some (levels, path @ concat (map (\<lambda>i. [CHR ''/'', name ! i]) [level..<levels]))"
proof (induction name levels level path rule: get_path_in_cache_loop.induct)
  case (1 name levels level path)
  show ?case
  proof (cases "level < levels")
    case True
    then have nm: "level < length name" using "1.prems" by simp
    have up: "[level..<levels] = level # [level + 1..<levels]"
      using True by (simp add: upt_conv_Cons)
    have "get_path_in_cache_loop name levels level path =
            get_path_in_cache_loop name levels (level + 1) ((path @ [CHR ''/'']) @ [name ! level])"
      using True nm by simp
    also have "\<dots> = Some (levels, ((path @ [CHR ''/'']) @ [name ! level]) @
                        concat (map (\<lambda>i. [CHR ''/'', name ! i]) [level + 1..<levels]))"
      using "1.IH" [OF True nm] "1.prems" True by simp
    finally show ?thesis by (simp add: up)
  next
    case False
    then have "level = levels" using "1.prems" by simp
    then show ?thesis by simp
  qed
qed

text \<open>
  C1. For \<open>1 \<le> levels \<le> 8\<close> and \<open>levels < length name\<close>, \<open>get_path_in_cache\<close> returns
  \<open>cache_dir\<close>, then \<open>"/"\<close> and the \<open>i\<close>-th character of \<open>name\<close> for each \<open>i < levels\<close>,
  then \<open>"/"\<close>, the rest of \<open>name\<close> and \<open>suffix\<close>. The fan-out part is exactly \<open>levels\<close>
  components of one character each (its length is \<open>2 * levels\<close>, and it has a \<open>"/"\<close> at every
  even position). The scenario S1 is the last conjunct.
\<close>

theorem get_path_in_cache_layout:
  "(1 \<le> levels \<and> levels \<le> 8 \<and> levels < length name \<longrightarrow>
      get_path_in_cache cache_dir levels name suffix =
        Some (cache_dir @ level_dirs name levels @ ''/'' @ drop levels name @ suffix)
      \<and> length (level_dirs name levels) = 2 * levels
      \<and> (\<forall>i < levels. level_dirs name levels ! (2 * i) = CHR ''/''
                    \<and> level_dirs name levels ! (2 * i + 1) = name ! i))
   \<and> get_path_in_cache ''/c'' 2 ''abcdef012'' ''.o'' = Some ''/c/a/b/cdef012.o''"
proof -
  have len: "length (concat (map (\<lambda>i. [CHR ''/'', name ! i]) [a..<b])) = 2 * (b - a)" for a b
    by (induction b) auto
  have nth: "i < n \<Longrightarrow>
        concat (map (\<lambda>i. [CHR ''/'', name ! i]) [0..<n]) ! (2 * i) = CHR ''/''
      \<and> concat (map (\<lambda>i. [CHR ''/'', name ! i]) [0..<n]) ! (2 * i + 1) = name ! i" for i n
  proof (induction n)
    case 0
    then show ?case by simp
  next
    case (Suc n)
    show ?case
    proof (cases "i < n")
      case True
      then show ?thesis using Suc.IH len [of 0 n] by (simp add: nth_append)
    next
      case False
      then have "i = n" using Suc.prems by simp
      then show ?thesis using len [of 0 n] by (simp add: nth_append)
    qed
  qed
  have main: "get_path_in_cache cache_dir levels name suffix =
        Some (cache_dir @ level_dirs name levels @ ''/'' @ drop levels name @ suffix)"
    if "1 \<le> levels" "levels \<le> 8" "levels < length name"
    using that get_path_in_cache_loop_eq [of levels name 0 cache_dir]
    by (simp add: get_path_in_cache_def level_dirs_def)
  have ex: "get_path_in_cache ''/c'' 2 ''abcdef012'' ''.o'' = Some ''/c/a/b/cdef012.o''"
    by (simp add: get_path_in_cache_def get_path_in_cache_loop.simps [of _ _ 0]
                  get_path_in_cache_loop.simps [of _ _ 1] get_path_in_cache_loop.simps [of _ _ 2])
  show ?thesis
    using main len [of 0 levels] nth [of _ levels] ex by (simp add: level_dirs_def)
qed

theorem get_path_in_cache_layout_witness:
  "get_path_in_cache ''/cache'' 1 ''0a'' ''.d'' = Some ''/cache/0/a.d''
   \<and> level_dirs ''0a'' 1 = ''/0''"
  using get_path_in_cache_layout [of 1 "''0a''" "''/cache''" "''.d''"]
  by (simp add: level_dirs_def)

subsection \<open>ANSI CSI sequences\<close>

lemma scan_while_takeWhile:
  "pos \<le> length s \<Longrightarrow> scan_while P s pos = pos + length (takeWhile P (drop pos s))"
proof (induction P s pos rule: scan_while.induct)
  case (1 P s pos)
  show ?case
  proof (cases "pos < length s \<and> P (s ! pos)")
    case True
    then have d: "drop pos s = s ! pos # drop (Suc pos) s"
      by (simp add: Cons_nth_drop_Suc)
    have "scan_while P s pos = scan_while P s (pos + 1)"
      using True by (subst scan_while.simps) simp
    also have "\<dots> = pos + 1 + length (takeWhile P (drop (pos + 1) s))"
      using "1.IH" True by simp
    finally show ?thesis using True d by simp
  next
    case False
    have sw: "scan_while P s pos = pos"
      by (subst scan_while.simps) (simp only: False if_False)
    show ?thesis
    proof (cases "pos < length s")
      case True
      then have d: "drop pos s = s ! pos # drop (Suc pos) s"
        by (simp add: Cons_nth_drop_Suc)
      show ?thesis using sw d False True by simp
    next
      case False
      then show ?thesis using sw "1.prems" by simp
    qed
  qed
qed

lemma find_first_decomp:
  assumes "CHR 0x1B \<notin> set pre"
  shows "find_first_ansi_csi_seq (pre @ CHR 0x1B # rest) =
     (case rest of
        [] \<Rightarrow> (0, 0)
      | c # body \<Rightarrow>
          if c \<noteq> CHR ''['' then (0, 0)
          else (case dropWhile is_intermediate_byte (dropWhile is_parameter_byte body) of
                  [] \<Rightarrow> (0, 0)
                | f # rst \<Rightarrow> if f = CHR ''K'' \<or> f = CHR ''m''
                            then (length pre, Suc (length rest) - length rst) else (0, 0)))"
proof -
  let ?s = "pre @ CHR 0x1B # rest"
  have tw: "takeWhile (\<lambda>c. c \<noteq> CHR 0x1B) ?s = pre"
    using assms by (induction pre) auto
  have p0: "scan_while (\<lambda>c. c \<noteq> CHR 0x1B) ?s 0 = length pre"
    using scan_while_takeWhile [of 0 ?s "\<lambda>c. c \<noteq> CHR 0x1B"] tw by simp
  show ?thesis
  proof (cases rest)
    case Nil
    then show ?thesis using p0 by (simp add: find_first_ansi_csi_seq_def Let_def)
  next
    case (Cons c body)
    note rest = this
    show ?thesis
    proof (cases "c = CHR ''[''")
      case False
      then show ?thesis using Cons p0 by (simp add: find_first_ansi_csi_seq_def Let_def nth_append)
    next
      case True
      let ?ps = "takeWhile is_parameter_byte body"
      let ?r2 = "dropWhile is_parameter_byte body"
      let ?is = "takeWhile is_intermediate_byte ?r2"
      let ?r3 = "dropWhile is_intermediate_byte ?r2"
      have s_eq: "?s = (pre @ [CHR 0x1B, CHR ''['']) @ body" using Cons True by simp
      have d2: "drop (length pre + 2) ?s = body" unfolding s_eq by simp
      have p1: "scan_while is_parameter_byte ?s (length pre + 2) = length pre + 2 + length ?ps"
        using scan_while_takeWhile [of "length pre + 2" ?s is_parameter_byte] d2 Cons by simp
      have s_eq2: "?s = (pre @ [CHR 0x1B, CHR ''['']  @ ?ps) @ ?r2" using Cons True by simp
      have d3: "drop (length pre + 2 + length ?ps) ?s = ?r2"
        using Cons True by (simp add: dropWhile_eq_drop)
      have p2: "scan_while is_intermediate_byte ?s (length pre + 2 + length ?ps)
                  = length pre + 2 + length ?ps + length ?is"
        using scan_while_takeWhile [of "length pre + 2 + length ?ps" ?s is_intermediate_byte] d3 Cons
        by (simp add: length_takeWhile_le)
      have s_eq3: "?s = (pre @ [CHR 0x1B, CHR ''['']  @ ?ps @ ?is) @ ?r3" using Cons True by simp
      have tdl: "length (takeWhile P xs) + length (dropWhile P xs) = length xs"
        for P and xs :: string
        by (induction xs) auto
      have len: "length ?s = length pre + 2 + length ?ps + length ?is + length ?r3"
        using Cons tdl [of is_parameter_byte body] tdl [of is_intermediate_byte ?r2] by simp
      have d4: "drop (length ?is) (drop (length pre + 2 + length ?ps) ?s) = ?r3"
        unfolding d3 by (simp add: dropWhile_eq_drop)
      have nth3: "?s ! (length pre + 2 + length ?ps + length ?is) = hd ?r3" if "?r3 \<noteq> []"
      proof -
        have "length pre + 2 + length ?ps + length ?is < length ?s"
          using that len by simp
        from hd_drop_conv_nth [OF this] d4 show ?thesis
          by (simp add: add.commute)
      qed
      have lr: "length rest = 1 + length ?ps + length ?is + length ?r3"
        using len by simp
      have cond1: "\<not> (length pre + 1 \<ge> length ?s \<or> ?s ! (length pre + 1) \<noteq> CHR ''['')"
        using Cons True by (simp add: nth_append)
      have ff: "find_first_ansi_csi_seq ?s =
          (if length pre + 2 + length ?ps + length ?is < length ?s \<and>
              (?s ! (length pre + 2 + length ?ps + length ?is) = CHR ''K'' \<or>
               ?s ! (length pre + 2 + length ?ps + length ?is) = CHR ''m'')
           then (length pre, length pre + 2 + length ?ps + length ?is + 1 - length pre) else (0, 0))"
        unfolding find_first_ansi_csi_seq_def Let_def p0 using cond1 p1 p2 
        by (simp del: append.simps)
      show ?thesis
      proof (cases ?r3)
        case Nil
        have l0: "length ?r3 = 0" by (simp only: Nil list.size)
        have z: "find_first_ansi_csi_seq ?s = (0, 0)" using ff len l0 by simp
        show ?thesis unfolding z
          by (simp only: rest True list.case Nil simp_thms if_False)
      next
        case (Cons f rst)
        then have "hd ?r3 = f" by simp
        then show ?thesis using ff len nth3 Cons True \<open>rest = c # body\<close> lr by simp
      qed
    qed
  qed
qed

lemma find_first_no_esc:
  assumes "CHR 0x1B \<notin> set s"
  shows "find_first_ansi_csi_seq s = (0, 0)"
proof -
  have tw: "takeWhile (\<lambda>c. c \<noteq> CHR 0x1B) s = s"
    using assms by (induction s) auto
  have p0: "scan_while (\<lambda>c. c \<noteq> CHR 0x1B) s 0 = length s"
    using scan_while_takeWhile [of 0 s "\<lambda>c. c \<noteq> CHR 0x1B"] tw by simp
  show ?thesis by (simp add: find_first_ansi_csi_seq_def p0)
qed

lemma csi_classes_disjoint:
  "is_intermediate_byte c \<Longrightarrow> \<not> is_parameter_byte c"
  "\<not> is_parameter_byte (CHR ''K'')" "\<not> is_parameter_byte (CHR ''m'')"
  "\<not> is_intermediate_byte (CHR ''K'')" "\<not> is_intermediate_byte (CHR ''m'')"
  by (simp_all add: is_parameter_byte_def is_intermediate_byte_def)

lemma find_first_csi:
  assumes pre: "CHR 0x1B \<notin> set pre" and q: "csi_seq q"
  shows "find_first_ansi_csi_seq (pre @ q @ rst) = (length pre, length q)"
proof -
  from q obtain ps "is" f where
    qe: "q = CHR 0x1B # CHR ''['' # ps @ is @ [f]"
    and ps: "\<forall>c \<in> set ps. is_parameter_byte c"
    and "is": "\<forall>c \<in> set is. is_intermediate_byte c"
    and f: "f = CHR ''K'' \<or> f = CHR ''m''"
    unfolding csi_seq_def by blast
  have fp: "\<not> is_parameter_byte f" and fi: "\<not> is_intermediate_byte f"
    using f csi_classes_disjoint by auto
  have r2a: "dropWhile is_parameter_byte (ps @ is @ f # rst) = dropWhile is_parameter_byte (is @ f # rst)"
    using ps by (simp add: dropWhile_append2)
  have r2b: "dropWhile is_parameter_byte (is @ f # rst) = is @ f # rst"
    using "is" fp csi_classes_disjoint(1) by (cases "is") auto
  have r3: "dropWhile is_intermediate_byte (is @ f # rst) = f # rst"
    using "is" fi by (simp add: dropWhile_append2)
  have "pre @ q @ rst = pre @ CHR 0x1B # (CHR ''['' # ps @ is @ f # rst)"
    by (simp add: qe)
  then show ?thesis
    using find_first_decomp [OF pre, of "CHR ''['' # ps @ is @ f # rst"] r2a r2b r3 f
    by (simp add: qe)
qed

lemma find_first_at_esc:
  assumes pre: "CHR 0x1B \<notin> set pre"
  shows "(find_first_ansi_csi_seq (pre @ CHR 0x1B # rest) = (0, 0) \<and> \<not> begins_csi_seq (CHR 0x1B # rest))
       \<or> (\<exists>q rst. CHR 0x1B # rest = q @ rst \<and> csi_seq q
              \<and> find_first_ansi_csi_seq (pre @ CHR 0x1B # rest) = (length pre, length q))"
proof (cases "begins_csi_seq (CHR 0x1B # rest)")
  case True
  then obtain q rst where e: "CHR 0x1B # rest = q @ rst" and q: "csi_seq q"
    unfolding begins_csi_seq_def by blast
  have "find_first_ansi_csi_seq (pre @ q @ rst) = (length pre, length q)"
    by (rule find_first_csi [OF pre q])
  then show ?thesis using e q by (metis)
next
  case False
  have "find_first_ansi_csi_seq (pre @ CHR 0x1B # rest) = (0, 0)"
  proof (rule ccontr)
    assume nz: "find_first_ansi_csi_seq (pre @ CHR 0x1B # rest) \<noteq> (0, 0)"
    note d = find_first_decomp [OF pre, of rest]
    from nz d obtain body where rest: "rest = CHR ''['' # body"
      by (cases rest) (auto split: if_splits)
    let ?ps = "takeWhile is_parameter_byte body"
    let ?r2 = "dropWhile is_parameter_byte body"
    let ?is = "takeWhile is_intermediate_byte ?r2"
    let ?r3 = "dropWhile is_intermediate_byte ?r2"
    from nz d rest obtain f rst where r3: "?r3 = f # rst" and f: "f = CHR ''K'' \<or> f = CHR ''m''"
      by (cases ?r3) (auto split: if_splits)
    have "body = ?ps @ ?is @ ?r3" by simp
    then have b: "body = ?ps @ ?is @ f # rst" using r3 by simp
    have "csi_seq (CHR 0x1B # CHR ''['' # ?ps @ ?is @ [f])"
      unfolding csi_seq_def using f
      by (intro exI [of _ ?ps] exI [of _ ?is] exI [of _ f]) (auto dest: set_takeWhileD)
    moreover have "CHR 0x1B # rest = (CHR 0x1B # CHR ''['' # ?ps @ ?is @ [f]) @ rst"
      using rest b by simp
    ultimately have "begins_csi_seq (CHR 0x1B # rest)"
      unfolding begins_csi_seq_def by blast
    with False show False by simp
  qed
  with False show ?thesis by simp
qed

lemma csi_seq_length: "csi_seq q \<Longrightarrow> 3 \<le> length q"
  by (auto simp: csi_seq_def)

lemma find_first_cases:
  obtains (none) "find_first_ansi_csi_seq s = (0, 0)"
  | (hit) pre q rst where "s = pre @ q @ rst" "CHR 0x1B \<notin> set pre" "csi_seq q"
      "find_first_ansi_csi_seq s = (length pre, length q)"
proof (cases "CHR 0x1B \<in> set s")
  case False
  then show ?thesis using find_first_no_esc none by simp
next
  case True
  then obtain pre rest where s: "s = pre @ CHR 0x1B # rest" and pre: "CHR 0x1B \<notin> set pre"
    by (auto dest: split_list_first)
  from find_first_at_esc [OF pre, of rest] show ?thesis
  proof
    assume "find_first_ansi_csi_seq (pre @ CHR 0x1B # rest) = (0, 0) \<and> \<not> begins_csi_seq (CHR 0x1B # rest)"
    then show ?thesis using none s by simp
  next
    assume "\<exists>q rst. CHR 0x1B # rest = q @ rst \<and> csi_seq q
              \<and> find_first_ansi_csi_seq (pre @ CHR 0x1B # rest) = (length pre, length q)"
    then obtain q rst where "CHR 0x1B # rest = q @ rst" "csi_seq q"
       "find_first_ansi_csi_seq (pre @ CHR 0x1B # rest) = (length pre, length q)" by blast
    then show ?thesis using hit [of pre q rst] s pre by simp
  qed
qed

lemma find_first_shift:
  assumes pre: "CHR 0x1B \<notin> set pre"
  shows "find_first_ansi_csi_seq (pre @ u) =
     (if snd (find_first_ansi_csi_seq u) = 0 then (0, 0)
      else (length pre + fst (find_first_ansi_csi_seq u), snd (find_first_ansi_csi_seq u)))"
proof (cases "CHR 0x1B \<in> set u")
  case False
  then have "CHR 0x1B \<notin> set (pre @ u)" using pre by simp
  then show ?thesis using find_first_no_esc False by simp
next
  case True
  then obtain p2 rest where u: "u = p2 @ CHR 0x1B # rest" and p2: "CHR 0x1B \<notin> set p2"
    by (auto dest: split_list_first)
  have pp: "CHR 0x1B \<notin> set (pre @ p2)" using pre p2 by simp
  from find_first_at_esc [OF p2, of rest] show ?thesis
  proof
    assume a: "find_first_ansi_csi_seq (p2 @ CHR 0x1B # rest) = (0, 0) \<and> \<not> begins_csi_seq (CHR 0x1B # rest)"
    with find_first_at_esc [OF pp, of rest] csi_seq_length
    have "find_first_ansi_csi_seq ((pre @ p2) @ CHR 0x1B # rest) = (0, 0)"
      unfolding begins_csi_seq_def by blast
    then show ?thesis using a u by simp
  next
    assume "\<exists>q rst. CHR 0x1B # rest = q @ rst \<and> csi_seq q
              \<and> find_first_ansi_csi_seq (p2 @ CHR 0x1B # rest) = (length p2, length q)"
    then obtain q rst where e: "CHR 0x1B # rest = q @ rst" and q: "csi_seq q"
      and f: "find_first_ansi_csi_seq (p2 @ CHR 0x1B # rest) = (length p2, length q)" by blast
    have "find_first_ansi_csi_seq ((pre @ p2) @ q @ rst) = (length (pre @ p2), length q)"
      by (rule find_first_csi [OF pp q])
    moreover have "length q \<noteq> 0" using csi_seq_length [OF q] by auto
    ultimately show ?thesis using e f u by simp
  qed
qed

lemma strip_loop_eq:
  "strip_ansi_csi_seqs_loop s pos result = result @ strip_ansi_csi_seqs (drop pos s)"
proof (induction "length s - pos" arbitrary: s pos result rule: less_induct)
  case less
  let ?t = "drop pos s"
  obtain off len where ff: "find_first_ansi_csi_seq ?t = (off, len)" by force
  show ?case
  proof (cases "len = 0")
    case True
    have "strip_ansi_csi_seqs_loop s pos result = result @ ?t"
      using ff True by (subst strip_ansi_csi_seqs_loop.simps) simp
    moreover have "strip_ansi_csi_seqs ?t = ?t"
      unfolding strip_ansi_csi_seqs_def
      using ff True by (subst strip_ansi_csi_seqs_loop.simps) simp
    ultimately show ?thesis by simp
  next
    case False
    have bound: "off + len \<le> length ?t"
    proof (cases ?t rule: find_first_cases)
      case none
      then show ?thesis using ff False by simp
    next
      case (hit pre q rst)
      then show ?thesis using ff by simp
    qed
    then have lt: "pos < length s" using False by simp
    have l: "strip_ansi_csi_seqs_loop s pos result =
          strip_ansi_csi_seqs_loop s (pos + off + len) (result @ take off ?t)"
      using ff False by (subst strip_ansi_csi_seqs_loop.simps) simp
    have r: "strip_ansi_csi_seqs ?t = strip_ansi_csi_seqs_loop ?t (off + len) (take off ?t)"
      unfolding strip_ansi_csi_seqs_def
      using ff False by (subst strip_ansi_csi_seqs_loop.simps) simp
    have m1: "length s - (pos + off + len) < length s - pos"
      using bound False lt by simp
    have m2: "length ?t - (off + len) < length s - pos"
      using bound False lt by simp
    have "strip_ansi_csi_seqs_loop s pos result =
            (result @ take off ?t) @ strip_ansi_csi_seqs (drop (pos + off + len) s)"
      unfolding l by (rule less [OF m1])
    moreover have "strip_ansi_csi_seqs ?t = take off ?t @ strip_ansi_csi_seqs (drop (off + len) ?t)"
      unfolding r by (rule less [OF m2])
    ultimately show ?thesis by (simp add: add.commute add.left_commute)
  qed
qed

lemma strip_unfold:
  "strip_ansi_csi_seqs t =
     (if snd (find_first_ansi_csi_seq t) = 0 then t
      else take (fst (find_first_ansi_csi_seq t)) t @
           strip_ansi_csi_seqs (drop (fst (find_first_ansi_csi_seq t) + snd (find_first_ansi_csi_seq t)) t))"
proof -
  have "strip_ansi_csi_seqs t = strip_ansi_csi_seqs_loop t 0 []"
    by (simp add: strip_ansi_csi_seqs_def)
  also have "\<dots> = (if snd (find_first_ansi_csi_seq t) = 0 then t
      else strip_ansi_csi_seqs_loop t (fst (find_first_ansi_csi_seq t) + snd (find_first_ansi_csi_seq t))
             (take (fst (find_first_ansi_csi_seq t)) t))"
    using strip_ansi_csi_seqs_loop.simps [of t 0 "[]"] by (simp add: Let_def)
  finally show ?thesis by (simp add: strip_loop_eq)
qed

lemma strip_none: "find_first_ansi_csi_seq t = (0, 0) \<Longrightarrow> strip_ansi_csi_seqs t = t"
  by (subst strip_unfold) simp

lemma strip_hit:
  assumes "CHR 0x1B \<notin> set pre" "csi_seq q"
  shows "strip_ansi_csi_seqs (pre @ q @ rst) = pre @ strip_ansi_csi_seqs rst"
proof -
  have "length q \<noteq> 0" using csi_seq_length [OF assms(2)] by auto
  then show ?thesis
    using find_first_csi [OF assms, of rst] by (subst strip_unfold) simp
qed

lemma strip_prefix:
  assumes "CHR 0x1B \<notin> set pre"
  shows "strip_ansi_csi_seqs (pre @ u) = pre @ strip_ansi_csi_seqs u"
proof (cases u rule: find_first_cases)
  case none
  then have "find_first_ansi_csi_seq (pre @ u) = (0, 0)"
    using find_first_shift [OF assms, of u] by simp
  then show ?thesis using none by (simp add: strip_none)
next
  case (hit p2 q rst)
  have "CHR 0x1B \<notin> set (pre @ p2)" using assms hit(2) by simp
  from strip_hit [OF this hit(3), of rst] strip_hit [OF hit(2,3), of rst]
  show ?thesis using hit(1) by simp
qed

lemma strip_idem: "strip_ansi_csi_seqs (strip_ansi_csi_seqs s) = strip_ansi_csi_seqs s"
proof (induction "length s" arbitrary: s rule: less_induct)
  case less
  show ?case
  proof (cases s rule: find_first_cases)
    case none
    then show ?thesis by (simp add: strip_none)
  next
    case (hit pre q rst)
    have "length rst < length s" using hit(1) csi_seq_length [OF hit(3)] by auto
    then have "strip_ansi_csi_seqs (strip_ansi_csi_seqs rst) = strip_ansi_csi_seqs rst"
      by (rule less)
    then show ?thesis
      using hit(1) strip_hit [OF hit(2,3), of rst] strip_prefix [OF hit(2)] by simp
  qed
qed

lemma strip_length: "length (strip_ansi_csi_seqs s) \<le> length s"
proof (induction "length s" arbitrary: s rule: less_induct)
  case less
  show ?case
  proof (cases s rule: find_first_cases)
    case none
    then show ?thesis by (simp add: strip_none)
  next
    case (hit pre q rst)
    have "length rst < length s" using hit(1) csi_seq_length [OF hit(3)] by auto
    then have "length (strip_ansi_csi_seqs rst) \<le> length rst"
      by (rule less)
    then show ?thesis
      using hit(1) strip_hit [OF hit(2,3), of rst] by simp
  qed
qed


text \<open>
  C3 fails on the code: \<open>find_first_ansi_csi_seq\<close> only looks at the first \<open>ESC\<close> byte,
  although its comment promises the first match of the regular expression. Here the input
  \<open>"a" ESC "b" ESC "[0m"\<close> comes back unchanged, while the code itself finds the sequence
  \<open>ESC "[0m"\<close> (offset 0, length 4) when it is given alone. Scenario S7, where every
  \<open>ESC\<close> byte begins a sequence, comes out as the specification says.
\<close>

theorem strip_ansi_csi_seqs_misses_later_seq:
  "strip_ansi_csi_seqs (''a'' @ CHR 0x1B # ''b'' @ CHR 0x1B # ''[0m'')
     = ''a'' @ CHR 0x1B # ''b'' @ CHR 0x1B # ''[0m''
   \<and> find_first_ansi_csi_seq (CHR 0x1B # ''[0m'') = (0, 4)
   \<and> find_first_ansi_csi_seq (''a'' @ CHR 0x1B # ''b'' @ CHR 0x1B # ''[0m'') = (0, 0)
   \<and> strip_ansi_csi_seqs (CHR 0x1B # ''[31mred'' @ CHR 0x1B # ''[0m done'' @ CHR 0x1B # ''[K'') = ''red done''"
  by code_simp

text \<open>
  C8. \<open>strip_ansi_csi_seqs\<close> is idempotent and never lengthens its argument.
\<close>

theorem strip_ansi_csi_seqs_idempotent_short:
  "strip_ansi_csi_seqs (strip_ansi_csi_seqs s) = strip_ansi_csi_seqs s
   \<and> length (strip_ansi_csi_seqs s) \<le> length s"
  using strip_idem strip_length by simp

theorem strip_ansi_csi_seqs_idempotent_short_witness:
  "strip_ansi_csi_seqs (strip_ansi_csi_seqs (''a'' @ CHR 0x1B # ''[1mb''))
     = strip_ansi_csi_seqs (''a'' @ CHR 0x1B # ''[1mb'')
   \<and> length (strip_ansi_csi_seqs (''a'' @ CHR 0x1B # ''[1mb'')) \<le> length (''a'' @ CHR 0x1B # ''[1mb'')"
  by (rule strip_ansi_csi_seqs_idempotent_short)

text \<open>
  C9. When the first \<open>ESC\<close> byte of the remainder \<open>drop pos s\<close> does not begin a complete
  sequence, the loop returns \<open>result\<close> followed by the whole remainder, whatever comes
  after that byte. So \<open>ESC "X" ESC "[31m"\<close> is returned as it is, although its tail
  \<open>ESC "[31m"\<close> is a complete sequence.
\<close>

theorem strip_ansi_csi_seqs_stops_at_first_esc:
  "(CHR 0x1B \<notin> set pre \<and> drop pos s = pre @ CHR 0x1B # rest \<and> \<not> begins_csi_seq (CHR 0x1B # rest)
      \<longrightarrow> strip_ansi_csi_seqs_loop s pos result = result @ drop pos s)
   \<and> strip_ansi_csi_seqs (CHR 0x1B # ''X'' @ CHR 0x1B # ''[31m'') = CHR 0x1B # ''X'' @ CHR 0x1B # ''[31m''
   \<and> csi_seq (CHR 0x1B # ''[31m'')"
proof -
  have gen: "strip_ansi_csi_seqs_loop s pos result = result @ drop pos s"
    if pre: "CHR 0x1B \<notin> set pre" and d: "drop pos s = pre @ CHR 0x1B # rest"
      and nb: "\<not> begins_csi_seq (CHR 0x1B # rest)"
  proof -
    from find_first_at_esc [OF pre, of rest] nb
    have "find_first_ansi_csi_seq (drop pos s) = (0, 0)"
      unfolding d begins_csi_seq_def by blast
    then show ?thesis by (simp add: strip_loop_eq strip_none)
  qed
  have ex: "strip_ansi_csi_seqs (CHR 0x1B # ''X'' @ CHR 0x1B # ''[31m'') = CHR 0x1B # ''X'' @ CHR 0x1B # ''[31m''"
    by code_simp
  have cs: "csi_seq (CHR 0x1B # ''[31m'')"
    unfolding csi_seq_def
    by (rule exI [of _ "''31''"], rule exI [of _ "[]"], rule exI [of _ "CHR ''m''"])
       (simp add: is_parameter_byte_def)
  show ?thesis using gen ex cs by blast
qed

theorem strip_ansi_csi_seqs_stops_at_first_esc_witness:
  "strip_ansi_csi_seqs_loop (''ab'' @ CHR 0x1B # ''[3'' @ CHR 0x1B # ''[0m'') 1 ''x''
     = ''xb'' @ CHR 0x1B # ''[3'' @ CHR 0x1B # ''[0m''"
proof -
  have nb: "\<not> begins_csi_seq (CHR 0x1B # ''[3'' @ CHR 0x1B # ''[0m'')"
    by (auto simp: begins_csi_seq_def csi_seq_def is_parameter_byte_def is_intermediate_byte_def
             Cons_eq_append_conv append_eq_Cons_conv)
  have d: "drop 1 (''ab'' @ CHR 0x1B # ''[3'' @ CHR 0x1B # ''[0m'') = ''b'' @ CHR 0x1B # (''[3'' @ CHR 0x1B # ''[0m'')"
    by simp
  have pre: "CHR 0x1B \<notin> set ''b''" by simp
  from strip_ansi_csi_seqs_stops_at_first_esc
    [of "''b''" 1 "''ab'' @ CHR 0x1B # ''[3'' @ CHR 0x1B # ''[0m''" "''[3'' @ CHR 0x1B # ''[0m''" "''x''"]
    pre d nb
  show ?thesis by simp
qed

subsection \<open>Paths\<close>

lemma common_prefix_loop_props:
  assumes "i \<le> limit"
  shows "i \<le> common_prefix_loop dir path limit i
       \<and> common_prefix_loop dir path limit i \<le> limit
       \<and> (\<forall>j. i \<le> j \<and> j < common_prefix_loop dir path limit i \<longrightarrow> dir ! j = path ! j)
       \<and> (common_prefix_loop dir path limit i < limit \<longrightarrow>
            dir ! common_prefix_loop dir path limit i \<noteq> path ! common_prefix_loop dir path limit i)"
  using assms
proof (induction dir path limit i rule: common_prefix_loop.induct)
  case (1 dir path limit i)
  show ?case
  proof (cases "i < limit \<and> dir ! i = path ! i")
    case True
    have e: "common_prefix_loop dir path limit i = common_prefix_loop dir path limit (i + 1)"
      by (subst common_prefix_loop.simps [of dir path limit i]) (simp only: True if_True simp_thms)
    have le: "i + 1 \<le> limit" using True by simp
    note ih = "1.IH" [OF True le]
    note ih1 = ih [THEN conjunct1] and ih2 = ih [THEN conjunct2, THEN conjunct1]
      and ih3 = ih [THEN conjunct2, THEN conjunct2, THEN conjunct1, rule_format]
      and ih4 = ih [THEN conjunct2, THEN conjunct2, THEN conjunct2]
    have ge: "i \<le> common_prefix_loop dir path limit (i + 1)" using ih1 by linarith
    have same: "dir ! j = path ! j" if "i \<le> j" "j < common_prefix_loop dir path limit (i + 1)" for j
    proof (cases "j = i")
      case eq: True
      show ?thesis unfolding eq using True by blast
    next
      case False
      then have "i + 1 \<le> j" using that(1) by linarith
      then show ?thesis using that(2) ih3 [of j] by blast
    qed
    show ?thesis unfolding e using ge ih2 same ih4 by blast
  next
    case False
    have e: "common_prefix_loop dir path limit i = i"
      by (subst common_prefix_loop.simps [of dir path limit i]) (simp only: False if_False)
    show ?thesis unfolding e using False "1.prems" by auto
  qed
qed

lemma back_to_slash_loop_props:
  assumes "1 \<le> i"
  shows "back_to_slash_loop dir path i < i
       \<and> (back_to_slash_loop dir path i = 0
            \<or> dir ! back_to_slash_loop dir path i = CHR ''/''
            \<or> path ! back_to_slash_loop dir path i = CHR ''/'')
       \<and> (\<forall>j. back_to_slash_loop dir path i < j \<and> j < i \<longrightarrow>
              dir ! j \<noteq> CHR ''/'' \<and> path ! j \<noteq> CHR ''/'')"
  using assms
proof (induction dir path i rule: back_to_slash_loop.induct)
  case (1 dir path i)
  show ?case
  proof (cases "i - 1 > 0 \<and> dir ! (i - 1) \<noteq> CHR ''/'' \<and> path ! (i - 1) \<noteq> CHR ''/''")
    case True
    have e: "back_to_slash_loop dir path i = back_to_slash_loop dir path (i - 1)"
      by (subst back_to_slash_loop.simps [of dir path i]) (simp only: True if_True simp_thms)
    have pos: "1 \<le> i - 1" using True by linarith
    note ih = "1.IH" [OF True pos]
    note ih1 = ih [THEN conjunct1] and ih2 = ih [THEN conjunct2, THEN conjunct1]
      and ih3 = ih [THEN conjunct2, THEN conjunct2, rule_format]
    have lt: "back_to_slash_loop dir path (i - 1) < i" using ih1 by linarith
    have rest: "dir ! j \<noteq> CHR ''/'' \<and> path ! j \<noteq> CHR ''/''"
      if "back_to_slash_loop dir path (i - 1) < j" "j < i" for j
    proof (cases "j = i - 1")
      case eq: True
      show ?thesis unfolding eq using True by blast
    next
      case False
      then have "j < i - 1" using that by linarith
      then show ?thesis using that(1) ih3 [of j] by blast
    qed
    show ?thesis unfolding e using lt ih2 rest by blast
  next
    case False
    have e: "back_to_slash_loop dir path i = i - 1"
      by (subst back_to_slash_loop.simps [of dir path i]) (simp only: False if_False)
    have "i - 1 < i" using "1.prems" by simp
    moreover have "i - 1 = 0 \<or> dir ! (i - 1) = CHR ''/'' \<or> path ! (i - 1) = CHR ''/''"
      using False by auto
    moreover have "\<forall>j. i - 1 < j \<and> j < i \<longrightarrow> dir ! j \<noteq> CHR ''/'' \<and> path ! j \<noteq> CHR ''/''"
      by auto
    ultimately show ?thesis unfolding e by blast
  qed
qed

lemma take_eq_iff_nth:
  assumes "k \<le> length xs" "k \<le> length ys"
  shows "take k xs = take k ys \<longleftrightarrow> (\<forall>j < k. xs ! j = ys ! j)"
  using assms by (auto simp: list_eq_iff_nth_eq)

lemma common_dir_prefix_length_boundary:
  assumes ne: "dir \<noteq> []" "path \<noteq> []" "dir \<noteq> ''/''" "path \<noteq> ''/''"
    and ab: "is_absolute_path dir" "is_absolute_path path"
  shows "\<exists>k. common_dir_prefix_length dir path = Some k \<and> dir_boundary dir path k
           \<and> (\<forall>j. dir_boundary dir path j \<longrightarrow> j \<le> k)"
proof -
  let ?limit = "min (length dir) (length path)"
  let ?i = "common_prefix_loop dir path ?limit 0"
  have d0: "dir ! 0 = CHR ''/''" and p0: "path ! 0 = CHR ''/''"
    using ab by (simp_all add: is_absolute_path_def)
  note cp = common_prefix_loop_props [of 0 ?limit dir path]
  have i_le: "?i \<le> ?limit" using cp by simp
  have i_eq: "\<forall>j < ?i. dir ! j = path ! j" using cp by simp
  have i_ne: "?i < ?limit \<longrightarrow> dir ! ?i \<noteq> path ! ?i" using cp by simp
  have limit_pos: "0 < ?limit" using ne by simp
  have i_pos: "1 \<le> ?i"
  proof (rule ccontr)
    assume "\<not> 1 \<le> ?i"
    then have "?i = 0" by simp
    with i_ne limit_pos d0 p0 show False by simp
  qed
  have tk: "take ?i dir = take ?i path"
    using i_le i_eq by (simp add: take_eq_iff_nth)
  have bound_le: "j \<le> ?i" if "dir_boundary dir path j" for j
  proof (rule ccontr)
    assume "\<not> j \<le> ?i"
    then have lt: "?i < j" by simp
    have jl: "j \<le> ?limit" using that by (simp add: dir_boundary_def)
    have "j \<le> length dir" "j \<le> length path" "take j dir = take j path"
      using that by (simp_all add: dir_boundary_def)
    then have "\<forall>m < j. dir ! m = path ! m"
      using take_eq_iff_nth [of j dir path] by blast
    then have "dir ! ?i = path ! ?i" using lt by simp
    moreover have "?i < ?limit" using lt jl by simp
    ultimately show False using i_ne by simp
  qed
  let ?c = "(?i = length dir \<and> ?i = length path)
               \<or> (?i = length dir \<and> path ! ?i = CHR ''/'')
               \<or> (?i = length path \<and> dir ! ?i = CHR ''/'')"
  have key: "common_dir_prefix_length dir path =
      (if ?c then Some ?i else Some (back_to_slash_loop dir path ?i))"
    by (simp only: common_dir_prefix_length_def Let_def ne d0 p0 simp_thms if_False)
  show ?thesis
  proof (cases ?c)
    case True
    have r: "common_dir_prefix_length dir path = Some ?i"
      unfolding key using True by (rule if_P)
    have "dir_boundary dir path ?i"
      unfolding dir_boundary_def using True i_le tk by auto
    then show ?thesis using r bound_le by blast
  next
    case False
    let ?b = "back_to_slash_loop dir path ?i"
    have r: "common_dir_prefix_length dir path = Some ?b"
      unfolding key using False by (rule if_not_P)
    note bp = back_to_slash_loop_props [OF i_pos, of dir path]
    have b_lt: "?b < ?i" using bp by simp
    have same: "dir ! ?b = path ! ?b" using i_eq b_lt by simp
    have b_sl: "dir ! ?b = CHR ''/''"
      using bp same d0 by (cases "?b = 0") auto
    have "\<forall>j < ?b. dir ! j = path ! j" using i_eq b_lt by simp
    moreover have b_len: "?b < length dir" "?b < length path" using b_lt i_le by simp_all
    ultimately have tb: "take ?b dir = take ?b path"
      using take_eq_iff_nth [of ?b dir path] by simp
    have b1: "dir_boundary dir path ?b"
      unfolding dir_boundary_def
      using b_len same b_sl tb by simp
    have not_i: "\<not> dir_boundary dir path ?i"
    proof
      assume b: "dir_boundary dir path ?i"
      show False
      proof (cases "?i < ?limit")
        case True
        then have "?i \<noteq> length dir" "?i \<noteq> length path" by simp_all
        then have "dir ! ?i = CHR ''/''" "path ! ?i = CHR ''/''"
          using b by (simp_all add: dir_boundary_def)
        then show False using i_ne True by simp
      next
        case f: False
        then have "?i = length dir \<or> ?i = length path" using i_le by (simp add: min_def split: if_splits)
        then show False using b False by (auto simp: dir_boundary_def)
      qed
    qed
    have b2: "j \<le> ?b" if "dir_boundary dir path j" for j
    proof (rule ccontr)
      assume "\<not> j \<le> ?b"
      then have lt: "?b < j" by simp
      have "j \<le> ?i" using bound_le that by simp
      moreover have "j \<noteq> ?i" using not_i that by auto
      ultimately have ji: "j < ?i" by simp
      then have "dir ! j \<noteq> CHR ''/'' \<and> path ! j \<noteq> CHR ''/''" using bp lt by simp
      moreover have "j < length dir" "j < length path" using ji i_le by simp_all
      ultimately show False using that by (simp add: dir_boundary_def)
    qed
    show ?thesis using r b1 b2 by blast
  qed
qed

lemma find_from_0_no: "c \<notin> set s \<Longrightarrow> find_from s c 0 = None"
proof -
  assume "c \<notin> set s"
  then have "takeWhile (\<lambda>x. x \<noteq> c) s = s" by (induction s) auto
  then have "length (takeWhile (\<lambda>x. x \<noteq> c) s) = length s" by (rule arg_cong)
  then show ?thesis unfolding find_from_def Let_def by simp
qed

lemma find_from_0_at: "c \<notin> set a \<Longrightarrow> find_from (a @ c # b) c 0 = Some (length a)"
proof -
  assume "c \<notin> set a"
  then have "takeWhile (\<lambda>x. x \<noteq> c) (a @ c # b) = a" by (induction a) auto
  then show ?thesis by (simp add: find_from_def)
qed

lemma find_from_shift:
  "find_from s c left = map_option (\<lambda>r. r + left) (find_from (drop left s) c 0)"
  by (auto simp: find_from_def Let_def)

lemma find_from_bounds:
  "find_from s c left = Some r \<Longrightarrow> left \<le> r \<and> r < length s"
  by (auto simp: find_from_def Let_def split: if_splits)

lemma normalize_loop_shift:
  "normalize_loop path left result = normalize_loop (drop left path) 0 result"
proof (induction "length path - left" arbitrary: path left result rule: less_induct)
  case less
  show ?case
  proof (cases "left \<ge> length path")
    case True
    then show ?thesis
      by (simp add: normalize_loop.simps [of path left] normalize_loop.simps [of "[]" 0])
  next
    case False
    let ?t = "drop left path"
    have nt: "\<not> length ?t \<le> 0" using False by simp
    show ?thesis
    proof (cases "find_from ?t (CHR ''/'') 0")
      case None
      then have "find_from path (CHR ''/'') left = None"
        by (simp add: find_from_shift [of path _ left])
      then show ?thesis using None False nt
        by (simp add: normalize_loop.simps [of path left] normalize_loop.simps [of ?t 0])
    next
      case (Some q)
      then have f: "find_from path (CHR ''/'') left = Some (q + left)"
        by (simp add: find_from_shift [of path _ left])
      have qb: "q < length ?t" using find_from_bounds [OF Some] by simp
      have l: "normalize_loop path left result =
          normalize_loop path (q + left + 1) (normalize_step (take q ?t) result)"
        using f False by (simp add: normalize_loop.simps [of path left])
      have r: "normalize_loop ?t 0 result =
          normalize_loop ?t (q + 1) (normalize_step (take q ?t) result)"
        using Some nt by (simp add: normalize_loop.simps [of ?t 0])
      have m1: "length path - (q + left + 1) < length path - left" using qb by simp
      have m2: "length ?t - (q + 1) < length path - left" using qb by simp
      have "normalize_loop path (q + left + 1) (normalize_step (take q ?t) result)
            = normalize_loop (drop (q + left + 1) path) 0 (normalize_step (take q ?t) result)"
        by (rule less [OF m1])
      moreover have "normalize_loop ?t (q + 1) (normalize_step (take q ?t) result)
            = normalize_loop (drop (q + 1) ?t) 0 (normalize_step (take q ?t) result)"
        by (rule less [OF m2])
      moreover have "drop (q + 1) ?t = drop (q + left + 1) path"
        by (simp add: add.commute add.left_commute)
      ultimately show ?thesis using l r by simp
    qed
  qed
qed

lemma nl_Nil: "normalize_loop [] 0 st = st"
  by (simp add: normalize_loop.simps [of "[]" 0])

lemma nl_slash:
  assumes "CHR ''/'' \<notin> set a"
  shows "normalize_loop (a @ CHR ''/'' # b) 0 st = normalize_loop b 0 (normalize_step a st)"
proof -
  let ?s = "a @ CHR ''/'' # b"
  have "normalize_loop ?s 0 st = normalize_loop ?s (length a + 1) (normalize_step a st)"
    using find_from_0_at [OF assms, of b] by (simp add: normalize_loop.simps [of ?s 0])
  also have "\<dots> = normalize_loop (drop (length a + 1) ?s) 0 (normalize_step a st)"
    by (rule normalize_loop_shift)
  finally show ?thesis by simp
qed

lemma nl_last:
  assumes "CHR ''/'' \<notin> set a" "a \<noteq> []"
  shows "normalize_loop a 0 st = normalize_step a st"
  using find_from_0_no [OF assms(1)] assms(2) by (simp add: normalize_loop.simps [of a 0])

lemma take_length_dropWhile_rev:
  "take (length (dropWhile P (rev r))) r = rev (dropWhile P (rev r))"
proof -
  let ?A = "rev (dropWhile P (rev r))" and ?B = "rev (takeWhile P (rev r))"
  have e: "?A @ ?B = r"
    by (simp only: rev_append [symmetric] takeWhile_dropWhile_id rev_rev_ident)
  have "take (length ?A) (?A @ ?B) = ?A" by simp
  then show ?thesis by (simp only: e length_rev)
qed

lemma pop_eq:
  "take (npos_plus_1 (rfind_from st c p)) st = rev (dropWhile (\<lambda>x. x \<noteq> c) (rev (take (p + 1) st)))"
proof -
  let ?t = "take (p + 1) st"
  let ?k = "length (dropWhile (\<lambda>x. x \<noteq> c) (rev ?t))"
  have k: "npos_plus_1 (rfind_from st c p) = ?k"
    by (simp add: npos_plus_1_def rfind_from_def Let_def)
  have "?k \<le> length (rev ?t)" by (rule length_dropWhile_le)
  then have "?k \<le> p + 1" by simp
  then have "take ?k st = take ?k ?t" by (simp add: min_absorb1)
  then show ?thesis unfolding k by (simp only: take_length_dropWhile_rev)
qed

lemma strip_eq:
  "take (npos_plus_1 (find_last_not_of r c)) r = rev (dropWhile (\<lambda>x. x = c) (rev r))"
proof -
  have "npos_plus_1 (find_last_not_of r c) = length (dropWhile (\<lambda>x. x = c) (rev r))"
    by (simp add: npos_plus_1_def find_last_not_of_def Let_def)
  then show ?thesis by (simp only: take_length_dropWhile_rev)
qed

lemma step_empty: "slash_ended st \<Longrightarrow> normalize_step [] st = st"
  using last_conv_nth [of st] by (auto simp: normalize_step_def slash_ended_def Let_def)

lemma step_dot: "normalize_step ''.'' st = st"
  by (simp add: normalize_step_def)

lemma step_name:
  assumes "st \<noteq> []" "c \<noteq> []" "CHR ''/'' \<notin> set c" "c \<noteq> ''.''" "c \<noteq> ''..''"
  shows "normalize_step c st = st @ c @ ''/''"
proof -
  have "last (st @ c) = last c" using assms(2) by (rule last_appendR)
  then have "last (st @ c) \<noteq> CHR ''/''" using last_in_set [OF assms(2)] assms(3) by auto
  moreover have "(st @ c) ! (length (st @ c) - 1) = last (st @ c)"
    using assms(2) by (simp add: last_conv_nth)
  ultimately show ?thesis using assms(4,5) by (simp add: normalize_step_def Let_def)
qed

lemma step_dotdot_eq:
  "length st > 1 \<Longrightarrow> normalize_step ''..'' st =
     rev (dropWhile (\<lambda>x. x \<noteq> CHR ''/'') (rev (take (length st - 2 + 1) st)))"
  by (simp add: normalize_step_def pop_eq)

lemma step_dotdot:
  assumes "slash_ended st"
  shows "slash_ended (normalize_step ''..'' st)"
proof (cases "length st > 1")
  case False
  then show ?thesis using assms by (simp add: normalize_step_def)
next
  case True
  let ?t = "take (length st - 2 + 1) st"
  let ?d = "dropWhile (\<lambda>x. x \<noteq> CHR ''/'') (rev ?t)"
  have e: "normalize_step ''..'' st = rev ?d"
    using True by (simp add: normalize_step_def pop_eq)
  have stne: "st \<noteq> []" and hst: "hd st = CHR ''/''" using assms by (simp_all add: slash_ended_def)
  have tne: "?t \<noteq> []" using stne by simp
  have ht: "hd ?t = CHR ''/''" using hst by (simp add: hd_take)
  have "CHR ''/'' \<in> set ?t" using hd_in_set [OF tne] ht by simp
  then have dne: "?d \<noteq> []" by (auto simp: dropWhile_eq_Nil_conv)
  then have "hd ?d = CHR ''/''" using hd_dropWhile [of "\<lambda>x. x \<noteq> CHR ''/''" "rev ?t"] by simp
  then have l: "last (rev ?d) = CHR ''/''" using dne by (simp add: last_rev)
  have "last (takeWhile (\<lambda>x. x \<noteq> CHR ''/'') (rev ?t) @ ?d) = last ?d"
    using dne by (rule last_appendR)
  then have "last ?d = last (rev ?t)" by (simp only: takeWhile_dropWhile_id)
  also have "\<dots> = hd ?t" using tne by (simp add: last_rev)
  finally have h: "hd (rev ?d) = CHR ''/''"
    using dne ht by (simp add: hd_rev)
  show ?thesis unfolding e slash_ended_def using dne l h by simp
qed

lemma step_inv:
  assumes "slash_ended st" "CHR ''/'' \<notin> set part"
  shows "slash_ended (normalize_step part st)"
proof (cases "part = ''..''")
  case True
  then show ?thesis using step_dotdot [OF assms(1)] by simp
next
  case nd: False
  show ?thesis
  proof (cases "part = ''.''")
    case True
    then show ?thesis using assms by (simp add: step_dot)
  next
    case False
    show ?thesis
    proof (cases "part = []")
      case True
      then show ?thesis using assms by (simp add: step_empty)
    next
      case ne: False
      have "st \<noteq> []" using assms(1) by (simp add: slash_ended_def)
      from step_name [OF this ne assms(2) False nd]
      show ?thesis using assms(1) by (simp add: slash_ended_def)
    qed
  qed
qed

lemma step_pop:
  assumes "slash_ended st" "plain_name c"
  shows "normalize_step ''..'' (normalize_step c st) = st"
proof -
  have ne: "st \<noteq> []" and l: "last st = CHR ''/''" using assms(1) by (simp_all add: slash_ended_def)
  have c: "c \<noteq> []" "CHR ''/'' \<notin> set c" "c \<noteq> ''.''" "c \<noteq> ''..''"
    using assms(2) by (simp_all add: plain_name_def)
  have s: "normalize_step c st = st @ c @ ''/''" by (rule step_name [OF ne c])
  let ?r = "st @ c @ ''/''"
  have len: "length ?r > 1" using ne c(1) by (cases st; cases c) simp_all
  have n: "length ?r - 2 + 1 = length (st @ c)" using ne by (cases st) simp_all
  have t: "take (length ?r - 2 + 1) ?r = st @ c" unfolding n by simp
  have d1: "dropWhile (\<lambda>x. x \<noteq> CHR ''/'') (rev c @ rev st) = dropWhile (\<lambda>x. x \<noteq> CHR ''/'') (rev st)"
    using c(2) by (intro dropWhile_append2) auto
  have "hd (rev st) = CHR ''/''" using ne l by (simp add: hd_rev)
  moreover have "rev st \<noteq> []" using ne by simp
  ultimately have d2: "dropWhile (\<lambda>x. x \<noteq> CHR ''/'') (rev st) = rev st"
    by (cases "rev st") auto
  have "normalize_step ''..'' ?r = rev (dropWhile (\<lambda>x. x \<noteq> CHR ''/'') (rev (take (length ?r - 2 + 1) ?r)))"
    by (rule step_dotdot_eq [OF len])
  also have "\<dots> = st" unfolding t using d1 d2 by simp
  finally show ?thesis using s by simp
qed

lemma split_at_slash:
  obtains (plain) "CHR ''/'' \<notin> set u"
  | (slash) a v where "u = a @ CHR ''/'' # v" "CHR ''/'' \<notin> set a"
proof (cases "CHR ''/'' \<in> set u")
  case True
  then obtain a v where "u = a @ CHR ''/'' # v" "CHR ''/'' \<notin> set a"
    by (auto dest: split_list_first)
  then show ?thesis by (rule slash)
next
  case False
  then show ?thesis by (rule plain)
qed

lemma nl_inv: "slash_ended st \<Longrightarrow> slash_ended (normalize_loop u 0 st)"
proof (induction "length u" arbitrary: u st rule: less_induct)
  case less
  show ?case
  proof (cases u rule: split_at_slash)
    case plain
    show ?thesis
    proof (cases "u = []")
      case True
      then show ?thesis using less.prems by (simp add: nl_Nil)
    next
      case False
      then show ?thesis using plain less.prems by (simp add: nl_last step_inv)
    qed
  next
    case (slash a v)
    have "length v < length u" using slash(1) by simp
    from less.hyps [OF this step_inv [OF less.prems slash(2)]]
    show ?thesis using slash by (simp add: nl_slash)
  qed
qed

lemma nl_cat:
  "slash_ended st \<Longrightarrow>
   normalize_loop (u @ CHR ''/'' # b) 0 st = normalize_loop b 0 (normalize_loop u 0 st)"
proof (induction "length u" arbitrary: u st rule: less_induct)
  case less
  show ?case
  proof (cases u rule: split_at_slash)
    case plain
    show ?thesis
    proof (cases "u = []")
      case True
      then show ?thesis using less.prems nl_slash [of "[]" b st] by (simp add: nl_Nil step_empty)
    next
      case False
      then show ?thesis using plain by (simp add: nl_slash nl_last)
    qed
  next
    case (slash a v)
    have lt: "length v < length u" using slash(1) by simp
    have "normalize_loop (u @ CHR ''/'' # b) 0 st
          = normalize_loop (a @ CHR ''/'' # (v @ CHR ''/'' # b)) 0 st"
      using slash(1) by simp
    also have "\<dots> = normalize_loop (v @ CHR ''/'' # b) 0 (normalize_step a st)"
      by (rule nl_slash [OF slash(2)])
    also have "\<dots> = normalize_loop b 0 (normalize_loop v 0 (normalize_step a st))"
      by (rule less.hyps [OF lt step_inv [OF less.prems slash(2)]])
    also have "normalize_loop v 0 (normalize_step a st) = normalize_loop u 0 st"
      unfolding slash(1) by (rule nl_slash [OF slash(2), symmetric])
    finally show ?thesis .
  qed
qed

lemma nl_slashes: "slash_ended st \<Longrightarrow> normalize_loop (replicate n (CHR ''/'')) 0 st = st"
proof (induction n)
  case 0
  then show ?case by (simp add: nl_Nil)
next
  case (Suc n)
  have "normalize_loop (replicate (Suc n) (CHR ''/'')) 0 st
        = normalize_loop ([] @ CHR ''/'' # replicate n (CHR ''/'')) 0 st" by simp
  also have "\<dots> = normalize_loop (replicate n (CHR ''/'')) 0 (normalize_step [] st)"
    by (rule nl_slash) simp
  finally show ?case using Suc by (simp add: step_empty)
qed

lemma nl_trail:
  assumes "slash_ended st"
  shows "normalize_loop (u @ replicate n (CHR ''/'')) 0 st = normalize_loop u 0 st"
proof (cases n)
  case 0
  then show ?thesis by simp
next
  case (Suc m)
  have "normalize_loop (u @ CHR ''/'' # replicate m (CHR ''/'')) 0 st
        = normalize_loop (replicate m (CHR ''/'')) 0 (normalize_loop u 0 st)"
    by (rule nl_cat [OF assms])
  then show ?thesis using Suc nl_slashes [OF nl_inv [OF assms]] by simp
qed

lemma strip_decomp:
  "\<exists>n. rev (dropWhile (\<lambda>x. x = c) (rev r)) @ replicate n c = r"
proof -
  let ?tw = "takeWhile (\<lambda>x. x = c) (rev r)"
  have e: "rev (dropWhile (\<lambda>x. x = c) (rev r)) @ rev ?tw = r"
    by (simp only: rev_append [symmetric] takeWhile_dropWhile_id rev_rev_ident)
  have "\<forall>x \<in> set ?tw. x = c" by (auto dest: set_takeWhileD)
  then have "?tw = replicate (length ?tw) c" by (simp add: replicate_length_same)
  then have "rev ?tw = rev (replicate (length ?tw) c)" by (rule arg_cong)
  then have "rev ?tw = replicate (length ?tw) c" by (simp only: rev_replicate)
  then have "rev (dropWhile (\<lambda>x. x = c) (rev r)) @ replicate (length ?tw) c = r"
    using e by (simp only:)
  then show ?thesis by (rule exI)
qed

lemma nl_strip:
  assumes "slash_ended st"
  shows "normalize_loop (take (npos_plus_1 (find_last_not_of r (CHR ''/''))) r) 0 st
         = normalize_loop r 0 st"
proof -
  let ?A = "rev (dropWhile (\<lambda>x. x = CHR ''/'') (rev r))"
  from strip_decomp [of "CHR ''/''" r]
  obtain n where e: "?A @ replicate n (CHR ''/'') = r" by (elim exE)
  from nl_trail [OF assms, of ?A n]
  have "normalize_loop r 0 st = normalize_loop ?A 0 st" by (simp only: e)
  then show ?thesis by (simp only: strip_eq)
qed

lemma strip_Nil_iff:
  "take (npos_plus_1 (find_last_not_of r c)) r = [] \<longleftrightarrow> (\<forall>x \<in> set r. x = c)"
  by (simp add: strip_eq dropWhile_eq_Nil_conv)

lemma nl_rel:
  assumes "slash_ended st"
  shows "normalize_loop
           (let t = take (npos_plus_1 (find_last_not_of r (CHR ''/''))) r
            in if t = [] then ''.'' else t) 0 st
         = normalize_loop r 0 st"
proof (cases "take (npos_plus_1 (find_last_not_of r (CHR ''/''))) r = []")
  case True
  then have "\<forall>x \<in> set r. x = CHR ''/''" by (simp only: strip_Nil_iff)
  then have "replicate (length r) (CHR ''/'') = r" by (simp add: replicate_length_same)
  then have "normalize_loop r 0 st = st" using nl_slashes [OF assms, of "length r"] by (simp only:)
  moreover have "normalize_loop ''.'' 0 st = st" by (simp add: nl_last step_dot)
  ultimately show ?thesis using True by (simp add: Let_def)
next
  case False
  then show ?thesis using nl_strip [OF assms, of r] by (simp add: Let_def)
qed

lemma normalize_absolute_path_eq:
  "normalize_absolute_path (CHR ''/'' # s) =
     (let result = normalize_loop s 0 ''/''
      in if length result > 1
         then take (npos_plus_1 (find_last_not_of result (CHR ''/''))) result
         else result)"
proof -
  have "normalize_loop (CHR ''/'' # s) 1 ''/'' = normalize_loop s 0 ''/''"
    using normalize_loop_shift [of "CHR ''/'' # s" 1 "''/''"] by simp
  then show ?thesis by (simp add: normalize_absolute_path_def is_absolute_path_def)
qed

lemma normalize_cong:
  assumes "normalize_loop s 0 ''/'' = normalize_loop t 0 ''/''"
  shows "normalize_absolute_path (CHR ''/'' # s) = normalize_absolute_path (CHR ''/'' # t)"
  unfolding normalize_absolute_path_eq assms ..

lemma slash_ended_root: "slash_ended ''/''"
  by (simp add: slash_ended_def)

lemma dotdot_loop_none:
  "(\<forall>j. i \<le> j \<and> j < length dir \<longrightarrow> dir ! j \<noteq> CHR ''/'') \<Longrightarrow> dotdot_loop dir i r = r"
proof (induction dir i r rule: dotdot_loop.induct)
  case (1 dir i result)
  show ?case
  proof (cases "i < length dir")
    case True
    then have ns: "dir ! i \<noteq> CHR ''/''" using "1.prems" by simp
    have "dotdot_loop dir i result = dotdot_loop dir (i + 1) result"
      using True ns by (subst dotdot_loop.simps [of dir i]) simp
    also have "\<dots> = result"
      using "1.IH" [OF True] ns "1.prems" by simp
    finally show ?thesis .
  next
    case False
    then show ?thesis by (subst dotdot_loop.simps [of dir i]) simp
  qed
qed

lemma dotdot_loop_last_slash:
  assumes "CHR ''/'' \<notin> set cn"
  shows "dotdot_loop (d0 @ CHR ''/'' # cn) (length d0) [] = ''..''"
proof -
  let ?dir = "d0 @ CHR ''/'' # cn"
  have "dotdot_loop ?dir (length d0) [] = dotdot_loop ?dir (length d0 + 1) ''..''"
    by (subst dotdot_loop.simps [of ?dir "length d0"]) simp
  also have "\<dots> = ''..''"
  proof (rule dotdot_loop_none, intro allI impI)
    fix j assume j: "length d0 + 1 \<le> j \<and> j < length ?dir"
    then have "?dir ! j = cn ! (j - length d0 - 1)" by (simp add: nth_append nth_Cons')
    moreover have "j - length d0 - 1 < length cn" using j by auto
    ultimately show "?dir ! j \<noteq> CHR ''/''" using assms nth_mem by metis
  qed
  finally show ?thesis .
qed

lemma base_name_decomp:
  assumes "CHR ''/'' \<in> set dir"
  shows "\<exists>d0. dir = d0 @ CHR ''/'' # base_name dir \<and> CHR ''/'' \<notin> set (base_name dir)"
proof -
  let ?P = "\<lambda>x. x \<noteq> CHR ''/''"
  let ?D = "dropWhile ?P (rev dir)" and ?T = "takeWhile ?P (rev dir)"
  have dne: "?D \<noteq> []" using assms by (auto simp: dropWhile_eq_Nil_conv)
  then obtain y ys where D: "?D = y # ys" by (cases ?D) auto
  have "\<not> ?P (hd ?D)" using dne by (rule hd_dropWhile)
  then have y: "y = CHR ''/''" using D by simp
  have e: "rev ?D @ rev ?T = dir"
    by (simp only: rev_append [symmetric] takeWhile_dropWhile_id rev_rev_ident)
  have k: "find_last_of dir (CHR ''/'') = Some (length ?D - 1)"
    using dne by (simp add: find_last_of_def Let_def)
  have "drop (length (rev ?D)) (rev ?D @ rev ?T) = rev ?T" by simp
  then have dr: "drop (length ?D) dir = rev ?T" by (simp only: e length_rev)
  have "length ?D - 1 + 1 = length ?D" using dne by (cases ?D) auto
  then have b: "base_name dir = rev ?T" using k dr by (simp add: base_name_def)
  have "CHR ''/'' \<notin> set (rev ?T)" by (auto dest: set_takeWhileD)
  moreover have "dir = rev ys @ CHR ''/'' # rev ?T" using e D y by simp
  ultimately show ?thesis using b by metis
qed

lemma cdpl_unique:
  assumes "dir \<noteq> []" "path \<noteq> []" "dir \<noteq> ''/''" "path \<noteq> ''/''"
    and "is_absolute_path dir" "is_absolute_path path"
    and b: "dir_boundary dir path k" and m: "\<And>j. dir_boundary dir path j \<Longrightarrow> j \<le> k"
  shows "common_dir_prefix_length dir path = Some k"
proof -
  from common_dir_prefix_length_boundary [OF assms(1-6)]
  obtain k' where r: "common_dir_prefix_length dir path = Some k'"
    and b': "dir_boundary dir path k'" and m': "\<forall>j. dir_boundary dir path j \<longrightarrow> j \<le> k'"
    by (elim exE conjE)
  have "k \<le> k'" using m' b by blast
  moreover have "k' \<le> k" using m [OF b'] .
  ultimately show ?thesis using r by simp
qed

lemma is_absolute_path_append: "is_absolute_path a \<Longrightarrow> is_absolute_path (a @ b)"
  by (cases a) (auto simp: is_absolute_path_def)

lemma cdpl_whole_dir:
  assumes "is_absolute_path dir" "dir \<noteq> ''/''" "rest = [] \<or> hd rest = CHR ''/''"
  shows "common_dir_prefix_length dir (dir @ rest) = Some (length dir)"
proof (rule cdpl_unique)
  show "dir \<noteq> []" using assms(1) by (simp add: is_absolute_path_def)
  then show "dir @ rest \<noteq> []" by simp
  show "dir \<noteq> ''/''" by fact
  show "dir @ rest \<noteq> ''/''" using assms(2) \<open>dir \<noteq> []\<close>
    by (cases dir) (auto simp: append_eq_Cons_conv)
  show "is_absolute_path dir" by fact
  show "is_absolute_path (dir @ rest)" using assms(1) by (rule is_absolute_path_append)
  show "dir_boundary dir (dir @ rest) (length dir)"
    using assms(3) by (cases rest) (auto simp: dir_boundary_def nth_append)
  show "\<And>j. dir_boundary dir (dir @ rest) j \<Longrightarrow> j \<le> length dir"
    by (simp add: dir_boundary_def)
qed

lemma cdpl_last_slash:
  assumes ab: "is_absolute_path (d0 @ CHR ''/'' # cn)" and cn: "CHR ''/'' \<notin> set cn" "cn \<noteq> []"
    and x: "x \<noteq> CHR ''/''"
  shows "common_dir_prefix_length (d0 @ CHR ''/'' # cn) ((d0 @ CHR ''/'' # cn) @ x # r) = Some (length d0)"
proof (rule cdpl_unique)
  let ?dir = "d0 @ CHR ''/'' # cn" 
  let ?path = "?dir @ x # r"
  show "?dir \<noteq> []" by simp
  show "?path \<noteq> []" by simp
  show "?dir \<noteq> ''/''" using cn(2) by (cases d0) auto
  show "?path \<noteq> ''/''" by (cases d0) auto
  show "is_absolute_path ?dir" by fact
  show "is_absolute_path ?path" using ab by (rule is_absolute_path_append)
  show "dir_boundary ?dir ?path (length d0)"
    by (simp add: dir_boundary_def nth_append)
  show "j \<le> length d0" if b: "dir_boundary ?dir ?path j" for j
  proof (rule ccontr)
    assume "\<not> j \<le> length d0"
    then have lt: "length d0 < j" by simp
    have jl: "j \<le> length ?dir" using b by (simp add: dir_boundary_def)
    show False
    proof (cases "j = length ?dir")
      case True
      have "?path ! j = x" unfolding True by (simp only: nth_append_length)
      moreover have "j \<noteq> length ?path" using True by simp
      ultimately show False using b x by (simp add: dir_boundary_def)
    next
      case False
      then have j2: "j < length ?dir" using jl by simp
      have "?dir ! j = cn ! (j - length d0 - 1)" using lt by (simp add: nth_append nth_Cons')
      moreover have "j - length d0 - 1 < length cn" using lt j2 by simp
      ultimately have "?dir ! j \<noteq> CHR ''/''" using cn(1) nth_mem by metis
      then show False using b False by (simp add: dir_boundary_def)
    qed
  qed
qed

lemma get_relative_path_unfold:
  assumes "is_absolute_path dir" "is_absolute_path path"
    and "common_dir_prefix_length dir path = Some c"
  shows "get_relative_path dir path =
     Some (let result = (if c > 0 \<or> dir \<noteq> ''/'' then dotdot_loop dir c [] else []);
               result = (if length path > c
                         then (if result \<noteq> [] then result @ ''/'' else result) @ drop (c + 1) path
                         else result);
               result = take (npos_plus_1 (find_last_not_of result (CHR ''/''))) result
           in if result = [] then ''.'' else result)"
  using assms by (simp add: get_relative_path_def Let_def)

lemma get_relative_path_root:
  "get_relative_path ''/'' (CHR ''/'' # rest) =
     Some (let t = take (npos_plus_1 (find_last_not_of rest (CHR ''/''))) rest
           in if t = [] then ''.'' else t)"
proof -
  have c: "common_dir_prefix_length ''/'' (CHR ''/'' # rest) = Some 0"
    by (simp add: common_dir_prefix_length_def)
  have a: "is_absolute_path ''/''" "is_absolute_path (CHR ''/'' # rest)"
    by (simp_all add: is_absolute_path_def)
  show ?thesis unfolding get_relative_path_unfold [OF a c] by (simp add: Let_def)
qed

lemma get_relative_path_below:
  assumes ab: "is_absolute_path dir" and nr: "dir \<noteq> ''/''"
  shows "get_relative_path dir (dir @ CHR ''/'' # r) =
     Some (let t = take (npos_plus_1 (find_last_not_of r (CHR ''/''))) r
           in if t = [] then ''.'' else t)"
proof -
  have c: "common_dir_prefix_length dir (dir @ CHR ''/'' # r) = Some (length dir)"
    by (rule cdpl_whole_dir [OF ab nr]) simp
  have a2: "is_absolute_path (dir @ CHR ''/'' # r)" by (rule is_absolute_path_append [OF ab])
  have d: "dotdot_loop dir (length dir) [] = []" by (rule dotdot_loop_none) auto
  show ?thesis unfolding get_relative_path_unfold [OF ab a2 c] using d by (simp add: Let_def)
qed

lemma get_relative_path_same:
  assumes ab: "is_absolute_path dir" and nr: "dir \<noteq> ''/''"
  shows "get_relative_path dir dir = Some ''.''"
proof -
  have "common_dir_prefix_length dir (dir @ []) = Some (length dir)"
    by (rule cdpl_whole_dir [OF ab nr]) simp
  then have c: "common_dir_prefix_length dir dir = Some (length dir)" by simp
  have d: "dotdot_loop dir (length dir) [] = []" by (rule dotdot_loop_none) auto
  have s: "take (npos_plus_1 (find_last_not_of [] (CHR ''/''))) [] = []" by simp
  show ?thesis unfolding get_relative_path_unfold [OF ab ab c] using d by (simp add: Let_def)
qed

lemma get_relative_path_sibling:
  assumes ab: "is_absolute_path (d0 @ CHR ''/'' # cn)" and cn: "CHR ''/'' \<notin> set cn" "cn \<noteq> []"
    and x: "x \<noteq> CHR ''/''"
  shows "get_relative_path (d0 @ CHR ''/'' # cn) ((d0 @ CHR ''/'' # cn) @ x # r) =
     Some (take (npos_plus_1 (find_last_not_of (''..'' @ CHR ''/'' # cn @ x # r) (CHR ''/'')))
             (''..'' @ CHR ''/'' # cn @ x # r))"
proof -
  let ?dir = "d0 @ CHR ''/'' # cn"
  let ?path = "?dir @ x # r"
  let ?R = "''..'' @ CHR ''/'' # cn @ x # r"
  have c: "common_dir_prefix_length ?dir ?path = Some (length d0)"
    by (rule cdpl_last_slash [OF ab cn x])
  have a2: "is_absolute_path ?path" by (rule is_absolute_path_append [OF ab])
  have d: "dotdot_loop ?dir (length d0) [] = ''..''" by (rule dotdot_loop_last_slash [OF cn(1)])
  have nr: "?dir \<noteq> ''/''" using cn(2) by (cases d0) auto
  have dr: "drop (length d0 + 1) ?path = cn @ x # r" by simp
  have "\<not> (\<forall>y \<in> set ?R. y = CHR ''/'')" by simp
  then have ne: "take (npos_plus_1 (find_last_not_of ?R (CHR ''/''))) ?R \<noteq> []"
    using strip_Nil_iff [of ?R "CHR ''/''"] by (simp only: simp_thms)
  have "get_relative_path ?dir ?path =
     Some (let result = ?R;
               result = take (npos_plus_1 (find_last_not_of result (CHR ''/''))) result
           in if result = [] then ''.'' else result)"
    unfolding get_relative_path_unfold [OF ab a2 c] using d nr dr by (simp add: Let_def)
  then show ?thesis using ne by (simp add: Let_def)
qed

lemma nl_sibling:
  assumes st: "slash_ended st" and cn: "plain_name cn"
  shows "normalize_loop
            (cn @ CHR ''/'' # take (npos_plus_1 (find_last_not_of (''..'' @ CHR ''/'' # w) (CHR ''/'')))
                                (''..'' @ CHR ''/'' # w)) 0 st
         = normalize_loop w 0 st"
proof -
  let ?R = "''..'' @ CHR ''/'' # w"
  have c: "CHR ''/'' \<notin> set cn" using cn by (simp add: plain_name_def)
  have s1: "slash_ended (normalize_step cn st)" by (rule step_inv [OF st c])
  have "normalize_loop (cn @ CHR ''/'' # take (npos_plus_1 (find_last_not_of ?R (CHR ''/''))) ?R) 0 st
        = normalize_loop (take (npos_plus_1 (find_last_not_of ?R (CHR ''/''))) ?R) 0 (normalize_step cn st)"
    by (rule nl_slash [OF c])
  also have "\<dots> = normalize_loop ?R 0 (normalize_step cn st)"
    by (rule nl_strip [OF s1])
  also have "\<dots> = normalize_loop w 0 (normalize_step ''..'' (normalize_step cn st))"
    by (rule nl_slash) simp
  also have "\<dots> = normalize_loop w 0 st"
    by (simp only: step_pop [OF st cn])
  finally show ?thesis .
qed

text \<open>
  C6. \<open>common_dir_prefix_length\<close> returns \<open>0\<close> when an argument is empty or is \<open>"/"\<close>.
  For every other pair of absolute paths it returns a length \<open>k\<close> such that the first
  \<open>k\<close> characters of both agree and end on a directory boundary in both (the end of the
  string, or just before a \<open>"/"\<close>), and no greater length has that property. The two results
  of scenario S4 are the last conjuncts.
\<close>

theorem common_dir_prefix_length_longest_boundary:
  "(dir = [] \<or> path = [] \<or> dir = ''/'' \<or> path = ''/'' \<longrightarrow>
      common_dir_prefix_length dir path = Some 0)
   \<and> (is_absolute_path dir \<and> is_absolute_path path \<and> dir \<noteq> ''/'' \<and> path \<noteq> ''/'' \<longrightarrow>
        (\<exists>k. common_dir_prefix_length dir path = Some k \<and> dir_boundary dir path k
              \<and> (\<forall>j. dir_boundary dir path j \<longrightarrow> j \<le> k)))
   \<and> common_dir_prefix_length ''/usr/local'' ''/usr/local/bin'' = Some 10
   \<and> common_dir_prefix_length ''/usr/locale'' ''/usr/local'' = Some 4"
proof -
  have zero: "common_dir_prefix_length dir path = Some 0"
    if "dir = [] \<or> path = [] \<or> dir = ''/'' \<or> path = ''/''"
    using that by (simp add: common_dir_prefix_length_def)
  have longest: "\<exists>k. common_dir_prefix_length dir path = Some k \<and> dir_boundary dir path k
              \<and> (\<forall>j. dir_boundary dir path j \<longrightarrow> j \<le> k)"
    if "is_absolute_path dir" "is_absolute_path path" "dir \<noteq> ''/''" "path \<noteq> ''/''"
  proof -
    have "dir \<noteq> []" "path \<noteq> []" using that(1,2) by (simp_all add: is_absolute_path_def)
    then show ?thesis using that by (intro common_dir_prefix_length_boundary)
  qed
  have s4a: "common_dir_prefix_length ''/usr/local'' ''/usr/local/bin'' = Some 10"
    by code_simp
  have s4b: "common_dir_prefix_length ''/usr/locale'' ''/usr/local'' = Some 4"
    by code_simp
  show ?thesis using zero longest s4a s4b by blast
qed

theorem common_dir_prefix_length_longest_boundary_witness:
  "common_dir_prefix_length ''/a/b'' ''/a/c'' = Some 2 \<and> dir_boundary ''/a/b'' ''/a/c'' 2
   \<and> common_dir_prefix_length ''/'' ''/a'' = Some 0"
proof -
  have a: "is_absolute_path ''/a/b''" "is_absolute_path ''/a/c''"
    by (simp_all add: is_absolute_path_def)
  from common_dir_prefix_length_longest_boundary [of "''/a/b''" "''/a/c''"] a
  obtain k where k: "common_dir_prefix_length ''/a/b'' ''/a/c'' = Some k"
    and b: "dir_boundary ''/a/b'' ''/a/c'' k" by auto
  have "common_dir_prefix_length ''/a/b'' ''/a/c'' = Some 2" by code_simp
  then have "k = 2" using k by simp
  moreover have "common_dir_prefix_length ''/'' ''/a'' = Some 0"
    using common_dir_prefix_length_longest_boundary [of "''/''" "''/a''"] by simp
  ultimately show ?thesis using k b by simp
qed

text \<open>
  C4 fails on the code when \<open>dir\<close> is not in normal form. For \<open>dir = "/a/"\<close> and
  \<open>path = "/a/b"\<close> the relative path is \<open>"../b"\<close>, and \<open>"/a/" ++ "/" ++ "../b"\<close>
  normalizes to \<open>"/b"\<close>, not to \<open>"/a/b"\<close>: the function counts the slashes of \<open>dir\<close> after
  the common prefix, so a trailing slash counts as one more directory to leave.
\<close>

theorem get_relative_path_round_trip_counterexample:
  "\<not> (\<forall>dir rest. is_absolute_path dir \<and> is_absolute_path (dir @ rest) \<longrightarrow>
        (\<exists>rel. get_relative_path dir (dir @ rest) = Some rel
           \<and> normalize_absolute_path (dir @ ''/'' @ rel) = normalize_absolute_path (dir @ rest)))"
proof
  assume all: "\<forall>dir rest. is_absolute_path dir \<and> is_absolute_path (dir @ rest) \<longrightarrow>
        (\<exists>rel. get_relative_path dir (dir @ rest) = Some rel
           \<and> normalize_absolute_path (dir @ ''/'' @ rel) = normalize_absolute_path (dir @ rest))"
  have a: "is_absolute_path ''/a/''" "is_absolute_path (''/a/'' @ ''b'')"
    by (simp_all add: is_absolute_path_def)
  have g: "get_relative_path ''/a/'' (''/a/'' @ ''b'') = Some ''../b''" by code_simp
  have n1: "normalize_absolute_path (''/a/'' @ ''/'' @ ''../b'') = ''/b''" by code_simp
  have n2: "normalize_absolute_path (''/a/'' @ ''b'') = ''/a/b''" by code_simp
  from all a obtain rel where "get_relative_path ''/a/'' (''/a/'' @ ''b'') = Some rel"
    and "normalize_absolute_path (''/a/'' @ ''/'' @ rel) = normalize_absolute_path (''/a/'' @ ''b'')"
    by blast
  then show False using g n1 n2 by simp
qed

text \<open>
  C4 as amended. Let \<open>dir\<close> be absolute, and either \<open>"/"\<close> or a path whose last component
  (\<open>base_name dir\<close>, the text after its last \<open>"/"\<close>) is a name: not empty, not \<open>"."\<close> and not
  \<open>".."\<close>. Then for every path \<open>dir @ rest\<close> that starts with \<open>dir\<close>, \<open>get_relative_path\<close>
  returns a relative path, and \<open>dir\<close>, \<open>"/"\<close> and that relative path normalize to the same
  string as the path.
\<close>

theorem get_relative_path_round_trip:
  assumes ab: "is_absolute_path dir"
    and nm: "dir = ''/'' \<or> plain_name (base_name dir)"
  shows "\<exists>rel. get_relative_path dir (dir @ rest) = Some rel
           \<and> normalize_absolute_path (dir @ ''/'' @ rel) = normalize_absolute_path (dir @ rest)"
proof (cases "dir = ''/''")
  case True
  let ?rel = "let t = take (npos_plus_1 (find_last_not_of rest (CHR ''/''))) rest
              in if t = [] then ''.'' else t"
  have g: "get_relative_path dir (dir @ rest) = Some ?rel"
    unfolding True using get_relative_path_root [of rest] by simp
  have "normalize_loop ([] @ CHR ''/'' # ?rel) 0 ''/'' = normalize_loop ?rel 0 (normalize_loop [] 0 ''/'')"
    by (rule nl_cat [OF slash_ended_root])
  also have "\<dots> = normalize_loop ?rel 0 ''/''" by (simp only: nl_Nil)
  also have "\<dots> = normalize_loop rest 0 ''/''" by (rule nl_rel [OF slash_ended_root])
  finally have "normalize_absolute_path (CHR ''/'' # ([] @ CHR ''/'' # ?rel)) = normalize_absolute_path (CHR ''/'' # rest)"
    by (rule normalize_cong)
  then have "normalize_absolute_path (dir @ ''/'' @ ?rel) = normalize_absolute_path (dir @ rest)"
    unfolding True by simp
  with g show ?thesis by blast
next
  case nr: False
  obtain d where dir: "dir = CHR ''/'' # d"
    using ab by (cases dir) (auto simp: is_absolute_path_def)
  have pn: "plain_name (base_name dir)" using nm nr by simp
  have std: "slash_ended (normalize_loop d 0 ''/'')" by (rule nl_inv [OF slash_ended_root])
  show ?thesis
  proof (cases rest)
    case Nil
    have g: "get_relative_path dir (dir @ rest) = Some ''.''"
      unfolding Nil using get_relative_path_same [OF ab nr] by simp
    have "normalize_loop (d @ CHR ''/'' # ''.'') 0 ''/'' = normalize_loop ''.'' 0 (normalize_loop d 0 ''/'')"
      by (rule nl_cat [OF slash_ended_root])
    also have "\<dots> = normalize_loop d 0 ''/''" by (simp add: nl_last step_dot)
    finally have "normalize_absolute_path (CHR ''/'' # (d @ CHR ''/'' # ''.'')) = normalize_absolute_path (CHR ''/'' # d)"
      by (rule normalize_cong)
    then have "normalize_absolute_path (dir @ ''/'' @ ''.'') = normalize_absolute_path (dir @ rest)"
      unfolding dir Nil by simp
    with g show ?thesis by blast
  next
    case (Cons x r)
    show ?thesis
    proof (cases "x = CHR ''/''")
      case True
      let ?rel = "let t = take (npos_plus_1 (find_last_not_of r (CHR ''/''))) r
                  in if t = [] then ''.'' else t"
      have g: "get_relative_path dir (dir @ rest) = Some ?rel"
        unfolding Cons True by (rule get_relative_path_below [OF ab nr])
      have "normalize_loop (d @ CHR ''/'' # ?rel) 0 ''/'' = normalize_loop ?rel 0 (normalize_loop d 0 ''/'')"
        by (rule nl_cat [OF slash_ended_root])
      also have "\<dots> = normalize_loop r 0 (normalize_loop d 0 ''/'')" by (rule nl_rel [OF std])
      also have "\<dots> = normalize_loop (d @ CHR ''/'' # r) 0 ''/''"
        by (rule nl_cat [OF slash_ended_root, symmetric])
      finally have "normalize_absolute_path (CHR ''/'' # (d @ CHR ''/'' # ?rel))
                    = normalize_absolute_path (CHR ''/'' # (d @ CHR ''/'' # r))"
        by (rule normalize_cong)
      then have "normalize_absolute_path (dir @ ''/'' @ ?rel) = normalize_absolute_path (dir @ rest)"
        unfolding dir Cons True by simp
      with g show ?thesis by blast
    next
      case False
      have "CHR ''/'' \<in> set dir" using dir by simp
      from base_name_decomp [OF this]
      obtain d0 where d0: "dir = d0 @ CHR ''/'' # base_name dir" by (elim exE conjE)
      let ?cn = "base_name dir"
      have cn: "CHR ''/'' \<notin> set ?cn" "?cn \<noteq> []" using pn by (simp_all add: plain_name_def)
      let ?R = "''..'' @ CHR ''/'' # ?cn @ x # r"
      let ?rel = "take (npos_plus_1 (find_last_not_of ?R (CHR ''/''))) ?R"
      have ab': "is_absolute_path (d0 @ CHR ''/'' # ?cn)" using ab d0 by simp
      have "get_relative_path (d0 @ CHR ''/'' # ?cn) ((d0 @ CHR ''/'' # ?cn) @ x # r) = Some ?rel"
        by (rule get_relative_path_sibling [OF ab' cn False])
      then have g: "get_relative_path dir (dir @ rest) = Some ?rel"
        using d0 Cons by simp
      have key: "normalize_loop (u @ ?cn @ CHR ''/'' # ?rel) 0 ''/'' = normalize_loop (u @ ?cn @ x # r) 0 ''/''"
        if u: "u = [] \<or> (\<exists>v. u = v @ ''/'')" for u
      proof (cases "u = []")
        case True
        show ?thesis unfolding True using nl_sibling [OF slash_ended_root pn, of "?cn @ x # r"]
          by simp
      next
        case False
        then obtain v where v: "u = v @ ''/''" using u by blast
        have sv: "slash_ended (normalize_loop v 0 ''/'')" by (rule nl_inv [OF slash_ended_root])
        have "normalize_loop (v @ CHR ''/'' # (?cn @ CHR ''/'' # ?rel)) 0 ''/''
              = normalize_loop (?cn @ CHR ''/'' # ?rel) 0 (normalize_loop v 0 ''/'')"
          by (rule nl_cat [OF slash_ended_root])
        also have "\<dots> = normalize_loop (?cn @ x # r) 0 (normalize_loop v 0 ''/'')"
          by (rule nl_sibling [OF sv pn])
        also have "\<dots> = normalize_loop (v @ CHR ''/'' # (?cn @ x # r)) 0 ''/''"
          by (rule nl_cat [OF slash_ended_root, symmetric])
        finally show ?thesis unfolding v by simp
      qed
      have "\<exists>u. d0 @ ''/'' = CHR ''/'' # u \<and> (u = [] \<or> (\<exists>v. u = v @ ''/''))"
      proof (cases d0)
        case Nil
        then show ?thesis by simp
      next
        case (Cons y ys)
        then have "y = CHR ''/''" using ab by (subst (asm) d0) (simp add: is_absolute_path_def)
        then show ?thesis using Cons by simp
      qed
      then obtain u where u: "d0 @ ''/'' = CHR ''/'' # u" "u = [] \<or> (\<exists>v. u = v @ ''/'')" by blast
      have j: "dir @ ''/'' @ ?rel = CHR ''/'' # (u @ ?cn @ CHR ''/'' # ?rel)"
      proof -
        have "dir @ ''/'' @ ?rel = (d0 @ ''/'') @ ?cn @ CHR ''/'' # ?rel"
          by (subst d0) simp
        then show ?thesis unfolding u(1) by simp
      qed
      have p: "dir @ rest = CHR ''/'' # (u @ ?cn @ x # r)"
      proof -
        have "dir @ rest = (d0 @ ''/'') @ ?cn @ x # r"
          unfolding Cons by (subst d0) simp
        then show ?thesis unfolding u(1) by simp
      qed
      have "normalize_absolute_path (dir @ ''/'' @ ?rel) = normalize_absolute_path (dir @ rest)"
        unfolding j p by (rule normalize_cong [OF key [OF u(2)]])
      with g show ?thesis by blast
    qed
  qed
qed

theorem get_relative_path_round_trip_witness:
  "get_relative_path ''/a/b'' ''/a/bc/d/'' = Some ''../bc/d''
   \<and> normalize_absolute_path (''/a/b'' @ ''/'' @ ''../bc/d'') = normalize_absolute_path ''/a/bc/d/''"
proof -
  have ab: "is_absolute_path ''/a/b''" by (simp add: is_absolute_path_def)
  have nm: "''/a/b'' = ''/'' \<or> plain_name (base_name ''/a/b'')" by code_simp
  from get_relative_path_round_trip [OF ab nm, of "''c/d/''"]
  obtain rel where r: "get_relative_path ''/a/b'' (''/a/b'' @ ''c/d/'') = Some rel"
    and n: "normalize_absolute_path (''/a/b'' @ ''/'' @ rel) = normalize_absolute_path (''/a/b'' @ ''c/d/'')"
    by blast
  have "get_relative_path ''/a/b'' (''/a/b'' @ ''c/d/'') = Some ''../bc/d''" by code_simp
  then have "rel = ''../bc/d''" using r by simp
  then show ?thesis using r n by simp
qed

subsection \<open>Directory creation and installation\<close>

lemma trace_invoke: "trace (snd (invoke f ev s)) = trace s @ [ev (fst (invoke f ev s))]"
  by (simp add: invoke_def split: prod.splits)

lemma create_dir_exists_dir:
  assumes "sys_stat os dir s = (st, s1)" "st_ok st" "st_is_directory st"
  shows "create_dir os dir s = Some (True, s1)"
  using assms by (subst create_dir.simps) simp

lemma create_dir_exists_not_dir:
  assumes "sys_stat os dir s = (st, s1)" "st_ok st" "\<not> st_is_directory st"
  shows "create_dir os dir s = Some (False, s1\<lparr>errno := ENOTDIR\<rparr>)"
  using assms by (subst create_dir.simps) simp

lemma create_dir_missing:
  assumes "sys_stat os dir s = (st, s1)" "\<not> st_ok st"
  shows "create_dir os dir s =
     Option.bind (create_dir os (dir_name dir) s1)
       (\<lambda>(ok, s2). if \<not> ok then Some (False, s2)
          else (case sys_mkdir os dir mode_0777 s2 of
                  (result, s3) \<Rightarrow> Some (result = 0 \<or> errno s3 = EEXIST, s3)))"
  using assms by (subst create_dir.simps) simp

lemma create_dir_not_a_directory:
  "first_existing os n dir s = Some (st, s') \<Longrightarrow> \<not> st_is_directory st \<Longrightarrow>
   create_dir os dir s = Some (False, s'\<lparr>errno := ENOTDIR\<rparr>)"
proof (induction n arbitrary: dir s)
  case 0
  obtain st0 s1 where e: "sys_stat os dir s = (st0, s1)" by force
  with 0 have "st_ok st0" "st0 = st" "s1 = s'" by (auto split: if_splits)
  then show ?case using e 0 by (simp add: create_dir_exists_not_dir)
next
  case (Suc n)
  obtain st0 s1 where e: "sys_stat os dir s = (st0, s1)" by force
  show ?case
  proof (cases "st_ok st0")
    case True
    with Suc.prems e have "st0 = st" "s1 = s'" by auto
    then show ?thesis using e True Suc.prems by (simp add: create_dir_exists_not_dir)
  next
    case False
    with Suc.prems e have "first_existing os n (dir_name dir) s1 = Some (st, s')" by simp
    from Suc.IH [OF this Suc.prems(2)]
    show ?thesis by (simp add: create_dir_missing [OF e False])
  qed
qed

lemma hard_link_step_traces:
  fixes os :: "'w os"
  shows
  "\<exists>evs. trace (snd (hard_link_step os cfg source dest via_tmp_file s)) = trace s @ evs \<and>
     ((hard_link cfg \<and> fst (hard_link_step os cfg source dest via_tmp_file s)
        \<and> (\<exists>u c. evs = [Ev_unlink dest u, Ev_cc_log ''Hard linking %s to %s'', Ev_link source dest 0,
                            Ev_chmod dest mode_0444 c]
                          @ (if c \<noteq> 0 then [Ev_cc_log ''Failed to chmod: %s''] else [])))
    \<or> (hard_link cfg
        \<and> (\<exists>u l. l \<noteq> 0
              \<and> evs = [Ev_unlink dest u, Ev_cc_log ''Hard linking %s to %s'', Ev_link source dest l,
                        Ev_cc_log ''Failed to hard link: %s'', Ev_cc_log ''Copying %s to %s'',
                        Ev_copy_file source dest via_tmp_file
                          (fst (hard_link_step os cfg source dest via_tmp_file s))]))
    \<or> (\<not> hard_link cfg
        \<and> evs = [Ev_cc_log ''Copying %s to %s'',
                  Ev_copy_file source dest via_tmp_file
                    (fst (hard_link_step os cfg source dest via_tmp_file s))]))"
proof (cases "hard_link cfg")
  case False
  then show ?thesis
    by (simp add: hard_link_step_def copy_step_def sys_copy_file_def invoke_def cc_log_def
          Let_def split: prod.splits)
next
  case True
  obtain u s1 where u: "sys_unlink os dest s = (u, s1)" by force
  obtain l s2 where l: "sys_link os source dest (cc_log ''Hard linking %s to %s'' s1) = (l, s2)" by force
  have t1: "trace s1 = trace s @ [Ev_unlink dest u]"
    using u by (auto simp: sys_unlink_def invoke_def split: prod.splits)
  have t2: "trace s2 = trace s @ [Ev_unlink dest u, Ev_cc_log ''Hard linking %s to %s'', Ev_link source dest l]"
    using l t1 by (auto simp: sys_link_def invoke_def cc_log_def split: prod.splits)
  show ?thesis
  proof (cases "l = 0")
    case z: True
    obtain c s3 where c: "sys_chmod os dest mode_0444 s2 = (c, s3)" by force
    have t3: "trace s3 = trace s2 @ [Ev_chmod dest mode_0444 c]"
      using c by (auto simp: sys_chmod_def invoke_def split: prod.splits)
    have r: "hard_link_step os cfg source dest via_tmp_file s =
          (True, if c \<noteq> 0 then cc_log ''Failed to chmod: %s'' s3 else s3)"
      using True u l z c by (simp add: hard_link_step_def Let_def)
    show ?thesis unfolding r using True t2 t3 z by (simp add: cc_log_def)
  next
    case nz: False
    obtain b s3 where b: "sys_copy_file os source dest via_tmp_file
        (cc_log ''Copying %s to %s'' (cc_log ''Failed to hard link: %s'' s2)) = (b, s3)" by force
    have t3: "trace s3 = trace s2 @ [Ev_cc_log ''Failed to hard link: %s'', Ev_cc_log ''Copying %s to %s'',
                                  Ev_copy_file source dest via_tmp_file b]"
      using b by (auto simp: sys_copy_file_def invoke_def cc_log_def split: prod.splits)
    have r: "hard_link_step os cfg source dest via_tmp_file s = (b, s3)"
      using True u l nz b by (simp add: hard_link_step_def copy_step_def Let_def)
    show ?thesis unfolding r using True t2 t3 nz by simp
  qed
qed

lemma install_traces:
  fixes os :: "'w os"
  assumes r_def: "r = clone_hard_link_or_copy_file os cfg source dest via_tmp_file s"
  assumes pre_def: "pre = (if file_clone cfg
                    then [Ev_cc_log ''Cloning %s to %s'', Ev_clone_file source dest via_tmp_file False,
                          Ev_cc_log ''Failed to clone: %s'']
                    else [])"
  shows
  "(file_clone cfg \<and> fst r
      \<and> new_events s (snd r) = [Ev_cc_log ''Cloning %s to %s'', Ev_clone_file source dest via_tmp_file True])
    \<or> (hard_link cfg \<and> fst r
        \<and> (\<exists>u c. new_events s (snd r) =
               pre @ [Ev_unlink dest u, Ev_cc_log ''Hard linking %s to %s'', Ev_link source dest 0,
                      Ev_chmod dest mode_0444 c]
                   @ (if c \<noteq> 0 then [Ev_cc_log ''Failed to chmod: %s''] else [])))
    \<or> (hard_link cfg
        \<and> (\<exists>u l. l \<noteq> 0
              \<and> new_events s (snd r) =
                  pre @ [Ev_unlink dest u, Ev_cc_log ''Hard linking %s to %s'', Ev_link source dest l,
                         Ev_cc_log ''Failed to hard link: %s'', Ev_cc_log ''Copying %s to %s'',
                         Ev_copy_file source dest via_tmp_file (fst r)]))
    \<or> (\<not> hard_link cfg
        \<and> new_events s (snd r) =
             pre @ [Ev_cc_log ''Copying %s to %s'', Ev_copy_file source dest via_tmp_file (fst r)])"
proof -
  have fallback: ?thesis
    if r: "r = hard_link_step os cfg source dest via_tmp_file s2" and t2: "trace s2 = trace s @ pre"
    for s2
  proof -
    let ?h = "hard_link_step os cfg source dest via_tmp_file s2"
    from hard_link_step_traces [of os cfg source dest via_tmp_file s2]
    obtain evs where tr: "trace (snd ?h) = trace s2 @ evs"
      and d: "(hard_link cfg \<and> fst ?h
        \<and> (\<exists>u c. evs = [Ev_unlink dest u, Ev_cc_log ''Hard linking %s to %s'', Ev_link source dest 0,
                            Ev_chmod dest mode_0444 c]
                          @ (if c \<noteq> 0 then [Ev_cc_log ''Failed to chmod: %s''] else [])))
    \<or> (hard_link cfg
        \<and> (\<exists>u l. l \<noteq> 0
              \<and> evs = [Ev_unlink dest u, Ev_cc_log ''Hard linking %s to %s'', Ev_link source dest l,
                        Ev_cc_log ''Failed to hard link: %s'', Ev_cc_log ''Copying %s to %s'',
                        Ev_copy_file source dest via_tmp_file (fst ?h)]))
    \<or> (\<not> hard_link cfg
        \<and> evs = [Ev_cc_log ''Copying %s to %s'', Ev_copy_file source dest via_tmp_file (fst ?h)])"
      by blast
    have E: "new_events s (snd ?h) = pre @ evs"
      unfolding new_events_def tr t2 by simp
    show ?thesis unfolding r E using d by auto
  qed
  show ?thesis
  proof (cases "file_clone cfg")
    case False
    then have r: "r = hard_link_step os cfg source dest via_tmp_file s"
      by (simp add: r_def clone_hard_link_or_copy_file_def)
    have p: "trace s = trace s @ pre" using False by (simp add: pre_def)
    show ?thesis by (rule fallback [OF r p])
  next
    case True
    obtain ok s1 where c: "sys_clone_file os source dest via_tmp_file (cc_log ''Cloning %s to %s'' s) = (ok, s1)"
      by force
    have t1: "trace s1 = trace s @ [Ev_cc_log ''Cloning %s to %s'', Ev_clone_file source dest via_tmp_file ok]"
      using c by (auto simp: sys_clone_file_def invoke_def cc_log_def split: prod.splits)
    show ?thesis
    proof (cases ok)
      case ok: True
      have r: "r = (True, s1)"
        using True c ok by (simp add: r_def clone_hard_link_or_copy_file_def Let_def)
      show ?thesis unfolding r using True t1 ok by (simp add: new_events_def)
    next
      case nok: False
      let ?s2 = "cc_log ''Failed to clone: %s'' s1"
      have r: "r = hard_link_step os cfg source dest via_tmp_file ?s2"
        using True c nok by (simp add: r_def clone_hard_link_or_copy_file_def Let_def)
      have t2: "trace ?s2 = trace s @ pre"
        using t1 nok True by (simp add: cc_log_def pre_def)
      show ?thesis by (rule fallback [OF r t2])
    qed
  qed
qed

text \<open>
  C5. (1) When \<open>dir\<close> exists as a directory, \<open>create_dir\<close> returns true after the one
  \<open>stat\<close> call, with no \<open>mkdir\<close>. (2) When \<open>dir\<close> is missing, its parent was created and
  \<open>mkdir\<close> leaves \<open>errno = EEXIST\<close> (whatever it returns), the call returns true. (3) When the
  first existing path on the way from \<open>dir\<close> up through its parents is not a directory,
  the call returns false with \<open>errno = ENOTDIR\<close>. In each case the call returns.
\<close>
theorem create_dir_idempotent_race_tolerant:
  fixes os :: "'w os"
  shows
  "(sys_stat os dir s = (st, s1) \<and> st_ok st \<and> st_is_directory st \<longrightarrow>
      create_dir os dir s = Some (True, s1) \<and> new_events s s1 = [Ev_stat dir st])
   \<and> (sys_stat os dir s = (st, s1) \<and> \<not> st_ok st
        \<and> create_dir os (dir_name dir) s1 = Some (True, s2)
        \<and> sys_mkdir os dir mode_0777 s2 = (res, s3) \<and> errno s3 = EEXIST \<longrightarrow>
      create_dir os dir s = Some (True, s3))
   \<and> (first_existing os n dir s = Some (st', s') \<and> \<not> st_is_directory st' \<longrightarrow>
      create_dir os dir s = Some (False, s'\<lparr>errno := ENOTDIR\<rparr>)
      \<and> errno (s'\<lparr>errno := ENOTDIR\<rparr>) = ENOTDIR)"
proof -
  have a: "create_dir os dir s = Some (True, s1) \<and> new_events s s1 = [Ev_stat dir st]"
    if "sys_stat os dir s = (st, s1)" "st_ok st" "st_is_directory st"
  proof -
    have "trace s1 = trace s @ [Ev_stat dir st]"
      using that(1) by (auto simp: sys_stat_def invoke_def split: prod.splits)
    then show ?thesis using create_dir_exists_dir [OF that] by (simp add: new_events_def)
  qed
  have b: "create_dir os dir s = Some (True, s3)"
    if "sys_stat os dir s = (st, s1)" "\<not> st_ok st"
      "create_dir os (dir_name dir) s1 = Some (True, s2)"
      "sys_mkdir os dir mode_0777 s2 = (res, s3)" "errno s3 = EEXIST"
    using that by (simp add: create_dir_missing [OF that(1,2)])
  have c: "create_dir os dir s = Some (False, s'\<lparr>errno := ENOTDIR\<rparr>)
      \<and> errno (s'\<lparr>errno := ENOTDIR\<rparr>) = ENOTDIR"
    if "first_existing os n dir s = Some (st', s')" "\<not> st_is_directory st'"
    using create_dir_not_a_directory [OF that] by simp
  show ?thesis using a b c by blast
qed

theorem create_dir_idempotent_race_tolerant_witness:
  "create_dir os_race ''/x'' \<lparr>errno = 0, world = [''/'' \<mapsto> True], trace = []\<rparr>
     = Some (True, \<lparr>errno = EEXIST, world = [''/'' \<mapsto> True, ''/x'' \<mapsto> True],
                    trace = [Ev_stat ''/x'' \<lparr>st_ok = False, st_is_directory = False\<rparr>,
                             Ev_stat ''/'' \<lparr>st_ok = True, st_is_directory = True\<rparr>,
                             Ev_mkdir ''/x'' mode_0777 (-1)]\<rparr>)
   \<and> create_dir os_static ''/a/b/c'' \<lparr>errno = 0, world = [''/'' \<mapsto> True, ''/a'' \<mapsto> False], trace = []\<rparr>
     = Some (False, \<lparr>errno = ENOTDIR, world = [''/'' \<mapsto> True, ''/a'' \<mapsto> False],
                     trace = [Ev_stat ''/a/b/c'' \<lparr>st_ok = False, st_is_directory = False\<rparr>,
                              Ev_stat ''/a/b'' \<lparr>st_ok = False, st_is_directory = False\<rparr>,
                              Ev_stat ''/a'' \<lparr>st_ok = True, st_is_directory = False\<rparr>]\<rparr>)"
proof -
  let ?s = "\<lparr>errno = 0, world = [''/'' \<mapsto> True], trace = []\<rparr> :: (string \<rightharpoonup> bool) proc"
  let ?st1 = "\<lparr>st_ok = False, st_is_directory = False\<rparr>"
  let ?s1 = "\<lparr>errno = 2, world = [''/'' \<mapsto> True], trace = [Ev_stat ''/x'' ?st1]\<rparr> :: (string \<rightharpoonup> bool) proc"
  let ?st2 = "\<lparr>st_ok = True, st_is_directory = True\<rparr>"
  let ?s2 = "\<lparr>errno = 2, world = [''/'' \<mapsto> True], trace = [Ev_stat ''/x'' ?st1, Ev_stat ''/'' ?st2]\<rparr>
             :: (string \<rightharpoonup> bool) proc"
  let ?s3 = "\<lparr>errno = EEXIST, world = [''/'' \<mapsto> True, ''/x'' \<mapsto> True],
              trace = [Ev_stat ''/x'' ?st1, Ev_stat ''/'' ?st2, Ev_mkdir ''/x'' mode_0777 (-1)]\<rparr>
             :: (string \<rightharpoonup> bool) proc"
  have dn: "dir_name ''/x'' = ''/''" by code_simp
  have e1: "sys_stat os_race ''/x'' ?s = (?st1, ?s1)"
    by (simp add: sys_stat_def invoke_def os_race_def os_static_def)
  have e2: "sys_stat os_race ''/'' ?s1 = (?st2, ?s2)"
    by (simp add: sys_stat_def invoke_def os_race_def os_static_def)
  have e3: "sys_mkdir os_race ''/x'' mode_0777 ?s2 = (-1, ?s3)"
    by (simp add: sys_mkdir_def invoke_def os_race_def os_static_def)
  have up: "create_dir os_race (dir_name ''/x'') ?s1 = Some (True, ?s2)"
    unfolding dn
    using create_dir_idempotent_race_tolerant [of os_race "''/''" ?s1 ?st2 ?s2] e2 by simp
  have p1: "create_dir os_race ''/x'' ?s = Some (True, ?s3)"
    using create_dir_idempotent_race_tolerant [of os_race "''/x''" ?s ?st1 ?s1 ?s2 "-1" ?s3] e1 up e3
    by simp
  let ?t = "\<lparr>errno = 0, world = [''/'' \<mapsto> True, ''/a'' \<mapsto> False], trace = []\<rparr> :: (string \<rightharpoonup> bool) proc"
  let ?t' = "\<lparr>errno = 2, world = [''/'' \<mapsto> True, ''/a'' \<mapsto> False],
              trace = [Ev_stat ''/a/b/c'' ?st1, Ev_stat ''/a/b'' ?st1,
                       Ev_stat ''/a'' \<lparr>st_ok = True, st_is_directory = False\<rparr>]\<rparr> :: (string \<rightharpoonup> bool) proc"
  have d1: "dir_name ''/a/b/c'' = ''/a/b''" by code_simp
  have d2: "dir_name ''/a/b'' = ''/a''" by code_simp
  have fe: "first_existing os_static 2 ''/a/b/c'' ?t = Some (\<lparr>st_ok = True, st_is_directory = False\<rparr>, ?t')"
    by (simp add: numeral_2_eq_2 sys_stat_def invoke_def os_static_def d1 d2)
  have p2: "create_dir os_static ''/a/b/c'' ?t = Some (False, ?t'\<lparr>errno := ENOTDIR\<rparr>)"
    using create_dir_idempotent_race_tolerant
      [of os_static "''/a/b/c''" ?t _ _ _ _ _ 2 "\<lparr>st_ok = True, st_is_directory = False\<rparr>" ?t'] fe
    by simp
  show ?thesis using p1 p2 by simp
qed

text \<open>
  C2. The result and the final state of one call of \<open>clone_hard_link_or_copy_file\<close> are
  determined by the answers of the operating system, in the order clone, hard link, copy,
  each call being made on the \<open>errno\<close> and the world that the call before it left.
  With cloning enabled and a clone that the operating system answers with true: the result
  is true and the state is the one the clone left, with the clone as only system call.
  Otherwise, from the state left by the failed clone if cloning is enabled and from the
  initial state if not: with hard links enabled, \<open>unlink dest\<close> is called, then
  \<open>link source dest\<close>; when it answers 0, \<open>chmod dest 0444\<close> is called, the result is true
  and the state is the one \<open>chmod\<close> left, with no copy; when \<open>link\<close> answers anything else,
  the copy is called and the result is the answer of the copy, the state the one it left;
  with hard links disabled the copy is called at once, and the result is its answer. The
  answers of the operating system being total, these four cases cover every call.
\<close>

theorem install_fallback_order:
  fixes os :: "'w os"
  shows
  "(file_clone cfg
      \<and> os_clone_file os source dest via_tmp_file (errno s) (world s) = (True, e, w) \<longrightarrow>
      clone_hard_link_or_copy_file os cfg source dest via_tmp_file s =
        (True, \<lparr>errno = e, world = w,
                trace = trace s @ [Ev_cc_log ''Cloning %s to %s'',
                                   Ev_clone_file source dest via_tmp_file True]\<rparr>))
   \<and> (clone_not_done os cfg source dest via_tmp_file s e0 w0 pre \<and> hard_link cfg
        \<and> os_unlink os dest e0 w0 = (u, e1, w1)
        \<and> os_link os source dest e1 w1 = (0, e2, w2)
        \<and> os_chmod os dest mode_0444 e2 w2 = (c, e3, w3) \<longrightarrow>
      clone_hard_link_or_copy_file os cfg source dest via_tmp_file s =
        (True, \<lparr>errno = e3, world = w3,
                trace = trace s @ pre @
                  [Ev_unlink dest u, Ev_cc_log ''Hard linking %s to %s'', Ev_link source dest 0,
                   Ev_chmod dest mode_0444 c]
                  @ (if c \<noteq> 0 then [Ev_cc_log ''Failed to chmod: %s''] else [])\<rparr>))
   \<and> (clone_not_done os cfg source dest via_tmp_file s e0 w0 pre \<and> hard_link cfg
        \<and> os_unlink os dest e0 w0 = (u, e1, w1)
        \<and> os_link os source dest e1 w1 = (l, e2, w2) \<and> l \<noteq> 0
        \<and> os_copy_file os source dest via_tmp_file e2 w2 = (b, e3, w3) \<longrightarrow>
      clone_hard_link_or_copy_file os cfg source dest via_tmp_file s =
        (b, \<lparr>errno = e3, world = w3,
             trace = trace s @ pre @
               [Ev_unlink dest u, Ev_cc_log ''Hard linking %s to %s'', Ev_link source dest l,
                Ev_cc_log ''Failed to hard link: %s'', Ev_cc_log ''Copying %s to %s'',
                Ev_copy_file source dest via_tmp_file b]\<rparr>))
   \<and> (clone_not_done os cfg source dest via_tmp_file s e0 w0 pre \<and> \<not> hard_link cfg
        \<and> os_copy_file os source dest via_tmp_file e0 w0 = (b, e1, w1) \<longrightarrow>
      clone_hard_link_or_copy_file os cfg source dest via_tmp_file s =
        (b, \<lparr>errno = e1, world = w1,
             trace = trace s @ pre @
               [Ev_cc_log ''Copying %s to %s'', Ev_copy_file source dest via_tmp_file b]\<rparr>))"
proof -
  note defs = clone_hard_link_or_copy_file_def hard_link_step_def copy_step_def
    sys_clone_file_def sys_unlink_def sys_link_def sys_chmod_def sys_copy_file_def
    invoke_def cc_log_def Let_def
  have p1: "clone_hard_link_or_copy_file os cfg source dest via_tmp_file s =
        (True, \<lparr>errno = e, world = w,
                trace = trace s @ [Ev_cc_log ''Cloning %s to %s'',
                                   Ev_clone_file source dest via_tmp_file True]\<rparr>)"
    if "file_clone cfg" "os_clone_file os source dest via_tmp_file (errno s) (world s) = (True, e, w)"
    using that by (simp add: defs)
  have start: "clone_hard_link_or_copy_file os cfg source dest via_tmp_file s =
        hard_link_step os cfg source dest via_tmp_file \<lparr>errno = e0, world = w0, trace = trace s @ pre\<rparr>"
    if "clone_not_done os cfg source dest via_tmp_file s e0 w0 pre"
    using that
    by (cases s; cases "file_clone cfg")
       (simp_all add: clone_not_done_def clone_hard_link_or_copy_file_def sys_clone_file_def
          invoke_def cc_log_def Let_def)
  have p2: "clone_hard_link_or_copy_file os cfg source dest via_tmp_file s =
        (True, \<lparr>errno = e3, world = w3,
                trace = trace s @ pre @
                  [Ev_unlink dest u, Ev_cc_log ''Hard linking %s to %s'', Ev_link source dest 0,
                   Ev_chmod dest mode_0444 c]
                  @ (if c \<noteq> 0 then [Ev_cc_log ''Failed to chmod: %s''] else [])\<rparr>)"
    if "clone_not_done os cfg source dest via_tmp_file s e0 w0 pre" "hard_link cfg"
      "os_unlink os dest e0 w0 = (u, e1, w1)" "os_link os source dest e1 w1 = (0, e2, w2)"
      "os_chmod os dest mode_0444 e2 w2 = (c, e3, w3)"
    unfolding start [OF that(1)] using that(2-5)
    by (simp add: hard_link_step_def sys_unlink_def sys_link_def sys_chmod_def invoke_def
          cc_log_def Let_def)
  have p3: "clone_hard_link_or_copy_file os cfg source dest via_tmp_file s =
        (b, \<lparr>errno = e3, world = w3,
             trace = trace s @ pre @
               [Ev_unlink dest u, Ev_cc_log ''Hard linking %s to %s'', Ev_link source dest l,
                Ev_cc_log ''Failed to hard link: %s'', Ev_cc_log ''Copying %s to %s'',
                Ev_copy_file source dest via_tmp_file b]\<rparr>)"
    if "clone_not_done os cfg source dest via_tmp_file s e0 w0 pre" "hard_link cfg"
      "os_unlink os dest e0 w0 = (u, e1, w1)" "os_link os source dest e1 w1 = (l, e2, w2)" "l \<noteq> 0"
      "os_copy_file os source dest via_tmp_file e2 w2 = (b, e3, w3)"
    unfolding start [OF that(1)] using that(2-6)
    by (simp add: hard_link_step_def copy_step_def sys_unlink_def sys_link_def sys_copy_file_def
          invoke_def cc_log_def Let_def)
  have p4: "clone_hard_link_or_copy_file os cfg source dest via_tmp_file s =
        (b, \<lparr>errno = e1, world = w1,
             trace = trace s @ pre @
               [Ev_cc_log ''Copying %s to %s'', Ev_copy_file source dest via_tmp_file b]\<rparr>)"
    if "clone_not_done os cfg source dest via_tmp_file s e0 w0 pre" "\<not> hard_link cfg"
      "os_copy_file os source dest via_tmp_file e0 w0 = (b, e1, w1)"
    unfolding start [OF that(1)] using that(2-3)
    by (simp add: hard_link_step_def copy_step_def sys_copy_file_def invoke_def cc_log_def Let_def)
  show ?thesis using p1 p2 p3 p4 by blast
qed

theorem install_fallback_order_witness:
  "clone_hard_link_or_copy_file os_static \<lparr>file_clone = True, hard_link = True\<rparr>
      ''/c/a/bcd.o'' ''/b/x.o'' False
      \<lparr>errno = 0, world = [''/c/a/bcd.o'' \<mapsto> False], trace = []\<rparr>
    = (True, \<lparr>errno = EPERM, world = [''/c/a/bcd.o'' \<mapsto> False, ''/b/x.o'' \<mapsto> False],
              trace = [Ev_cc_log ''Cloning %s to %s'',
                       Ev_clone_file ''/c/a/bcd.o'' ''/b/x.o'' False False,
                       Ev_cc_log ''Failed to clone: %s'',
                       Ev_unlink ''/b/x.o'' 0, Ev_cc_log ''Hard linking %s to %s'',
                       Ev_link ''/c/a/bcd.o'' ''/b/x.o'' 0, Ev_chmod ''/b/x.o'' mode_0444 0]\<rparr>)
   \<and> clone_hard_link_or_copy_file os_failing \<lparr>file_clone = True, hard_link = True\<rparr>
      ''/c/a/bcd.o'' ''/b/x.o'' True \<lparr>errno = 0, world = (), trace = []\<rparr>
    = (False, \<lparr>errno = 28, world = (),
               trace = [Ev_cc_log ''Cloning %s to %s'',
                        Ev_clone_file ''/c/a/bcd.o'' ''/b/x.o'' True False,
                        Ev_cc_log ''Failed to clone: %s'',
                        Ev_unlink ''/b/x.o'' (-1), Ev_cc_log ''Hard linking %s to %s'',
                        Ev_link ''/c/a/bcd.o'' ''/b/x.o'' (-1),
                        Ev_cc_log ''Failed to hard link: %s'', Ev_cc_log ''Copying %s to %s'',
                        Ev_copy_file ''/c/a/bcd.o'' ''/b/x.o'' True False]\<rparr>)"
proof -
  let ?cfg = "\<lparr>file_clone = True, hard_link = True\<rparr>"
  let ?pre = "\<lambda>via. [Ev_cc_log ''Cloning %s to %s'', Ev_clone_file ''/c/a/bcd.o'' ''/b/x.o'' via False,
               Ev_cc_log ''Failed to clone: %s'']"
  let ?s = "\<lparr>errno = 0, world = [''/c/a/bcd.o'' \<mapsto> False], trace = []\<rparr> :: (string \<rightharpoonup> bool) proc"
  let ?w = "[''/c/a/bcd.o'' \<mapsto> False] :: string \<rightharpoonup> bool"
  let ?w2 = "[''/c/a/bcd.o'' \<mapsto> False, ''/b/x.o'' \<mapsto> False] :: string \<rightharpoonup> bool"
  have w1: "?w(''/b/x.o'' := None) = ?w" by (rule ext) simp
  have c1: "clone_not_done os_static ?cfg ''/c/a/bcd.o'' ''/b/x.o'' False ?s EPERM ?w (?pre False)"
    by (simp add: clone_not_done_def os_static_def)
  have u1: "os_unlink os_static ''/b/x.o'' EPERM ?w = (0, EPERM, ?w)"
    using w1 by (simp add: os_static_def)
  have l1: "os_link os_static ''/c/a/bcd.o'' ''/b/x.o'' EPERM ?w = (0, EPERM, ?w2)"
    by (simp add: os_static_def)
  have m1: "os_chmod os_static ''/b/x.o'' mode_0444 EPERM ?w2 = (0, EPERM, ?w2)"
    by (simp add: os_static_def)
  have a: "clone_hard_link_or_copy_file os_static ?cfg ''/c/a/bcd.o'' ''/b/x.o'' False ?s
      = (True, \<lparr>errno = EPERM, world = ?w2,
                trace = trace ?s @ ?pre False @
                  [Ev_unlink ''/b/x.o'' 0, Ev_cc_log ''Hard linking %s to %s'',
                   Ev_link ''/c/a/bcd.o'' ''/b/x.o'' 0, Ev_chmod ''/b/x.o'' mode_0444 0]
                  @ (if (0::int) \<noteq> 0 then [Ev_cc_log ''Failed to chmod: %s''] else [])\<rparr>)"
    using install_fallback_order
      [where os = os_static and cfg = ?cfg and source = "''/c/a/bcd.o''" and dest = "''/b/x.o''"
         and via_tmp_file = False and s = ?s and ?e0.0 = EPERM and ?w0.0 = ?w and pre = "?pre False"
         and u = 0 and ?e1.0 = EPERM and ?w1.0 = ?w and ?e2.0 = EPERM and ?w2.0 = ?w2
         and c = 0 and ?e3.0 = EPERM and ?w3.0 = ?w2]
      c1 u1 l1 m1
    by simp
  let ?t = "\<lparr>errno = 0, world = (), trace = []\<rparr> :: unit proc"
  have c2: "clone_not_done os_failing ?cfg ''/c/a/bcd.o'' ''/b/x.o'' True ?t 95 () (?pre True)"
    by (simp add: clone_not_done_def os_failing_def)
  have b: "clone_hard_link_or_copy_file os_failing ?cfg ''/c/a/bcd.o'' ''/b/x.o'' True ?t
      = (False, \<lparr>errno = 28, world = (),
             trace = trace ?t @ ?pre True @
               [Ev_unlink ''/b/x.o'' (-1), Ev_cc_log ''Hard linking %s to %s'',
                Ev_link ''/c/a/bcd.o'' ''/b/x.o'' (-1),
                Ev_cc_log ''Failed to hard link: %s'', Ev_cc_log ''Copying %s to %s'',
                Ev_copy_file ''/c/a/bcd.o'' ''/b/x.o'' True False]\<rparr>)"
    using install_fallback_order
      [where os = os_failing and cfg = ?cfg and source = "''/c/a/bcd.o''" and dest = "''/b/x.o''"
         and via_tmp_file = True and s = ?t and ?e0.0 = 95 and ?w0.0 = "()" and pre = "?pre True"
         and u = "-1" and ?e1.0 = 2 and ?w1.0 = "()" and l = "-1" and ?e2.0 = 18 and ?w2.0 = "()"
         and b = False and ?e3.0 = 28 and ?w3.0 = "()"]
      c2
    by (simp add: os_failing_def)
  show ?thesis using a b by simp
qed

text \<open>
  C10. Whenever the call made \<open>link source dest\<close> and it returned 0, the result is true.
  When the \<open>chmod dest 0444\<close> that follows fails, the result is still true and the last
  thing the call did is to log the failure. In the world \<open>os_readonly_owner\<close>, where
  \<open>chmod\<close> fails, the call returns true and leaves \<open>dest\<close> with the mode 0644 of the cache
  object, whose owner-write bit is set.
\<close>

theorem install_true_when_link_succeeds:
  fixes os :: "'w os"
  shows
  "(let r = clone_hard_link_or_copy_file os cfg source dest via_tmp_file s
    in (Ev_link source dest 0 \<in> set (new_events s (snd r)) \<longrightarrow> fst r)
     \<and> (\<forall>c. c \<noteq> 0 \<and> Ev_chmod dest mode_0444 c \<in> set (new_events s (snd r)) \<longrightarrow>
            fst r \<and> Ev_link source dest 0 \<in> set (new_events s (snd r))
            \<and> last (new_events s (snd r)) = Ev_cc_log ''Failed to chmod: %s''))
   \<and> (let r = clone_hard_link_or_copy_file os_readonly_owner \<lparr>file_clone = False, hard_link = True\<rparr>
              ''/c/a/bcd.o'' ''/b/x.o'' False
              \<lparr>errno = 0, world = [''/c/a/bcd.o'' \<mapsto> mode_0644], trace = []\<rparr>
        in fst r \<and> world (snd r) ''/b/x.o'' = Some mode_0644 \<and> (mode_0644 div 128) mod 2 = 1)"
proof -
  have gen: "(Ev_link source dest 0 \<in> set (new_events s (snd r)) \<longrightarrow> fst r)
     \<and> (\<forall>c. c \<noteq> 0 \<and> Ev_chmod dest mode_0444 c \<in> set (new_events s (snd r)) \<longrightarrow>
            fst r \<and> Ev_link source dest 0 \<in> set (new_events s (snd r))
            \<and> last (new_events s (snd r)) = Ev_cc_log ''Failed to chmod: %s'')"
    if "r = clone_hard_link_or_copy_file os cfg source dest via_tmp_file s" for r
    using install_traces [OF that refl]
    by (elim disjE conjE exE) (auto split: if_splits)
  have ex: "(let r = clone_hard_link_or_copy_file os_readonly_owner \<lparr>file_clone = False, hard_link = True\<rparr>
              ''/c/a/bcd.o'' ''/b/x.o'' False
              \<lparr>errno = 0, world = [''/c/a/bcd.o'' \<mapsto> mode_0644], trace = []\<rparr>
        in fst r \<and> world (snd r) ''/b/x.o'' = Some mode_0644 \<and> (mode_0644 div 128) mod 2 = 1)"
    by (simp add: Let_def clone_hard_link_or_copy_file_def hard_link_step_def
        sys_unlink_def sys_link_def sys_chmod_def invoke_def cc_log_def
        os_readonly_owner_def mode_0644_def)
  show ?thesis unfolding Let_def using gen [OF refl] ex [unfolded Let_def] by blast
qed

theorem install_true_when_link_succeeds_witness:
  "(let r = clone_hard_link_or_copy_file os_readonly_owner \<lparr>file_clone = False, hard_link = True\<rparr>
              ''/c/a/bcd.o'' ''/b/x.o'' False
              \<lparr>errno = 0, world = [''/c/a/bcd.o'' \<mapsto> mode_0644], trace = []\<rparr>
    in fst r \<and> last (trace (snd r)) = Ev_cc_log ''Failed to chmod: %s''
       \<and> Ev_chmod ''/b/x.o'' mode_0444 (-1) \<in> set (trace (snd r)))"
proof -
  let ?s = "\<lparr>errno = 0, world = [''/c/a/bcd.o'' \<mapsto> mode_0644], trace = []\<rparr> :: (string \<rightharpoonup> nat) proc"
  let ?cfg = "\<lparr>file_clone = False, hard_link = True\<rparr>"
  let ?r = "clone_hard_link_or_copy_file os_readonly_owner ?cfg ''/c/a/bcd.o'' ''/b/x.o'' False ?s"
  have e: "Ev_chmod ''/b/x.o'' mode_0444 (-1) \<in> set (new_events ?s (snd ?r))"
    by (simp add: new_events_def clone_hard_link_or_copy_file_def hard_link_step_def
        sys_unlink_def sys_link_def sys_chmod_def invoke_def cc_log_def os_readonly_owner_def)
  have n: "new_events ?s (snd ?r) = trace (snd ?r)" by (simp add: new_events_def)
  from install_true_when_link_succeeds
         [of os_readonly_owner ?cfg "''/c/a/bcd.o''" "''/b/x.o''" False ?s, unfolded Let_def]
  have "\<forall>c. c \<noteq> 0 \<and> Ev_chmod ''/b/x.o'' mode_0444 c \<in> set (new_events ?s (snd ?r)) \<longrightarrow>
          fst ?r \<and> Ev_link ''/c/a/bcd.o'' ''/b/x.o'' 0 \<in> set (new_events ?s (snd ?r))
          \<and> last (new_events ?s (snd ?r)) = Ev_cc_log ''Failed to chmod: %s''"
    by blast
  then have "fst ?r \<and> last (new_events ?s (snd ?r)) = Ev_cc_log ''Failed to chmod: %s''"
    using e by (metis zero_neq_neg_one)
  then show ?thesis unfolding Let_def using e n by simp
qed

text \<open>
  C7 fails on the code compiled without \<open>posix_fallocate\<close>: the variable
  \<open>saved_pos\<close> is read with \<open>lseek(fd, 0, SEEK_END)\<close>, so it holds the size of the file
  and not the position. For a file of 10 bytes at position 3 the call returns 0 and leaves
  the position at 10, both when the file is long enough (\<open>new_size = 5\<close>) and when it is
  extended (\<open>new_size = 20\<close>).
\<close>

theorem fallocate_moves_position:
  "fallocate \<lparr>have_posix_fallocate = False, posix_fallocate_error = None, calloc_fails = False,
              write_fd_error = None\<rparr> 5
     \<lparr>errno = 0, world = \<lparr>f_size = 10, f_pos = 3, f_seekable = True\<rparr>, trace = []\<rparr>
   = (0, \<lparr>errno = 0, world = \<lparr>f_size = 10, f_pos = 10, f_seekable = True\<rparr>, trace = []\<rparr>)
   \<and> fallocate \<lparr>have_posix_fallocate = False, posix_fallocate_error = None, calloc_fails = False,
              write_fd_error = None\<rparr> 20
     \<lparr>errno = 0, world = \<lparr>f_size = 10, f_pos = 3, f_seekable = True\<rparr>, trace = []\<rparr>
   = (0, \<lparr>errno = 0, world = \<lparr>f_size = 20, f_pos = 10, f_seekable = True\<rparr>, trace = []\<rparr>)"
  by (simp add: fallocate_def lseek_def write_fd_def Let_def)

end
